theory Spec2Isabelle
  imports Main "HOL-Library.Extended_Nat"
begin

section \<open>Python values used by the training scripts\<close>

text \<open>
  Transitions, labels, tags and the lines of a CoNLL-U file are \<open>string\<close>s: lists of
  characters whose codes are the code points below 256. Words whose characters are
  classified by \<open>str.isupper\<close>, \<open>str.islower\<close> and \<open>str.isdigit\<close> are lists of
  Unicode code points (natural numbers), and the three tests, which read the Unicode
  character database, are a parameter of the functions that call them.
\<close>

record unicode_tests =
  isupper :: "nat \<Rightarrow> bool"
  islower :: "nat \<Rightarrow> bool"
  isdigit :: "nat \<Rightarrow> bool"

definition code_points :: "string \<Rightarrow> nat list" where
  "code_points s = map of_char s"

text \<open>The three tests on the ASCII code points, where they are the ranges A-Z, a-z and 0-9.\<close>

definition ascii_tests :: unicode_tests where
  "ascii_tests =
     \<lparr> isupper = (\<lambda>c. 65 \<le> c \<and> c \<le> 90),
       islower = (\<lambda>c. 97 \<le> c \<and> c \<le> 122),
       isdigit = (\<lambda>c. 48 \<le> c \<and> c \<le> 57) \<rparr>"

text \<open>
  A Python exception is a value. \<open>py_index\<close> is the index rule of Python lists: a
  negative index counts from the end, and an index outside the list raises IndexError.
\<close>

datatype py_error = IndexError | ValueError | ZeroDivisionError | StructError

definition then_res :: "py_error + 'a \<Rightarrow> ('a \<Rightarrow> py_error + 'b) \<Rightarrow> py_error + 'b" where
  "then_res r f = (case r of Inl e \<Rightarrow> Inl e | Inr x \<Rightarrow> f x)"

definition py_index :: "'a list \<Rightarrow> int \<Rightarrow> py_error + nat" where
  "py_index xs i =
     (let len = int (length xs); j = (if i < 0 then len + i else i)
      in if 0 \<le> j \<and> j < len then Inr (nat j) else Inl IndexError)"

definition py_get :: "'a list \<Rightarrow> int \<Rightarrow> py_error + 'a" where
  "py_get xs i = then_res (py_index xs i) (\<lambda>k. Inr (xs ! k))"

definition py_set :: "'a list \<Rightarrow> int \<Rightarrow> 'a \<Rightarrow> py_error + 'a list" where
  "py_set xs i v = then_res (py_index xs i) (\<lambda>k. Inr (xs[k := v]))"

definition startswith :: "string \<Rightarrow> string \<Rightarrow> bool" where
  "startswith s p = (take (length p) s = p)"

text \<open>
  A Python dict whose iteration order matters is an association list with distinct keys in
  insertion order. \<open>dict_update k d f\<close> is \<open>m[k] = f(m[k])\<close> on a \<open>defaultdict\<close> whose
  default value is \<open>d\<close>: a new key goes to the end.
\<close>

fun dict_update :: "'k \<Rightarrow> 'v \<Rightarrow> ('v \<Rightarrow> 'v) \<Rightarrow> ('k \<times> 'v) list \<Rightarrow> ('k \<times> 'v) list" where
  "dict_update k d f [] = [(k, f d)]"
| "dict_update k d f ((k', v) # m) =
     (if k' = k then (k', f v) # m else (k', v) # dict_update k d f m)"

text \<open>
  A dict of dicts, \<open>d[f][c]\<close>: reading a cell, and \<open>d[f][c] = g(d[f][c])\<close> on a
  \<open>defaultdict\<close> of \<open>defaultdict\<close>s whose inner default is \<open>dflt\<close>.
\<close>

definition cell :: "('f \<times> ('c \<times> 'v) list) list \<Rightarrow> 'f \<Rightarrow> 'c \<Rightarrow> 'v option" where
  "cell d f c = (case map_of d f of None \<Rightarrow> None | Some row \<Rightarrow> map_of row c)"

definition cell_or :: "'v \<Rightarrow> ('f \<times> ('c \<times> 'v) list) list \<Rightarrow> 'f \<Rightarrow> 'c \<Rightarrow> 'v" where
  "cell_or dflt d f c = (case cell d f c of None \<Rightarrow> dflt | Some v \<Rightarrow> v)"

definition cell_update ::
  "'f \<Rightarrow> 'c \<Rightarrow> 'v \<Rightarrow> ('v \<Rightarrow> 'v) \<Rightarrow> ('f \<times> ('c \<times> 'v) list) list \<Rightarrow> ('f \<times> ('c \<times> 'v) list) list" where
  "cell_update f c dflt g d = dict_update f [] (dict_update c dflt g) d"

definition dict_ok :: "('f \<times> ('c \<times> 'v) list) list \<Rightarrow> bool" where
  "dict_ok d = (distinct (map fst d) \<and> (\<forall>row \<in> snd ` set d. distinct (map fst row)))"

section \<open>Word shapes (train\_pos\_tagger.py and train\_dep\_parser.py)\<close>

text \<open>
  The loop body of \<open>_word_shape\<close> in train\_pos\_tagger.py: the state is
  \<open>(shape, prev_ch)\<close>, and the one-character string \<open>prev_ch\<close>, which starts as the
  empty string, is an option. The symbols \<open>X\<close>, \<open>x\<close> and \<open>d\<close> are the code points
  88, 120 and 100.
\<close>

definition pos_shape_class :: "unicode_tests \<Rightarrow> nat \<Rightarrow> nat" where
  "pos_shape_class u ch =
     (if isupper u ch then 88
      else if islower u ch then 120
      else if isdigit u ch then 100
      else ch)"

definition pos_shape_step ::
  "unicode_tests \<Rightarrow> nat list \<times> nat option \<Rightarrow> nat \<Rightarrow> nat list \<times> nat option" where
  "pos_shape_step u st ch =
     (let s = pos_shape_class u ch in
      if Some s \<noteq> snd st then (fst st @ [s], Some s) else st)"

definition pos_word_shape :: "unicode_tests \<Rightarrow> nat list \<Rightarrow> nat list" where
  "pos_word_shape u word = fst (foldl (pos_shape_step u) ([], None) word)"

text \<open>
  The loop body of \<open>_word_shape\<close> in train\_dep\_parser.py: the state is \<open>(shape, prev)\<close>;
  the hyphen is the code point 45 and the full stop 46.
\<close>

definition dep_shape_class :: "unicode_tests \<Rightarrow> nat \<Rightarrow> nat" where
  "dep_shape_class u ch =
     (if isupper u ch then 88
      else if islower u ch then 120
      else if isdigit u ch then 100
      else if ch = 45 then 45
      else 46)"

definition dep_shape_step ::
  "unicode_tests \<Rightarrow> nat list \<times> nat option \<Rightarrow> nat \<Rightarrow> nat list \<times> nat option" where
  "dep_shape_step u st ch =
     (let c = dep_shape_class u ch in
      if Some c \<noteq> snd st then (fst st @ [c], Some c) else st)"

definition dep_word_shape :: "unicode_tests \<Rightarrow> nat list \<Rightarrow> nat list" where
  "dep_word_shape u word =
     (let shape = fst (foldl (dep_shape_step u) ([], None) word) in
      if shape \<noteq> [] then shape else [120])"

section \<open>The arc-eager transition system (train\_dep\_parser.py)\<close>

text \<open>
  \<open>ArcEagerState\<close>. The stack is a Python list whose top is its last element; token ids are
  Python ints, with \<open>-1\<close> for "no such token" and for an unset head; an unset label is
  \<open>None\<close>.
\<close>

record arc_state =
  stack :: "int list"
  buffer :: "int list"
  heads :: "int list"
  labels :: "string option list"
  left_children :: "string option list"
  right_children :: "string option list"
  left_dep_count :: "int list"
  right_dep_count :: "int list"
  n_tokens :: nat

definition init_state :: "nat \<Rightarrow> arc_state" where
  "init_state n =
     \<lparr> stack = [0],
       buffer = map int [1 ..< n + 1],
       heads = replicate (n + 1) (- 1),
       labels = replicate (n + 1) None,
       left_children = replicate (n + 1) None,
       right_children = replicate (n + 1) None,
       left_dep_count = replicate (n + 1) 0,
       right_dep_count = replicate (n + 1) 0,
       n_tokens = n \<rparr>"

definition s0 :: "arc_state \<Rightarrow> int" where
  "s0 st = (if stack st \<noteq> [] then last (stack st) else - 1)"

definition b0 :: "arc_state \<Rightarrow> int" where
  "b0 st = (if buffer st \<noteq> [] then hd (buffer st) else - 1)"

definition is_terminal :: "arc_state \<Rightarrow> bool" where
  "is_terminal st = (length (buffer st) = 0 \<and> length (stack st) \<le> 1)"

text \<open>
  \<open>get_valid_transitions\<close>: the four \<open>if\<close> statements in the order of the source, each
  extending \<open>valid\<close>. \<open>self.heads[s0]\<close> is read only after \<open>s0 > 0\<close> holds.
\<close>

definition head_of_s0_is :: "arc_state \<Rightarrow> (int \<Rightarrow> bool) \<Rightarrow> py_error + bool" where
  "head_of_s0_is st P =
     (if s0 st > 0 then then_res (py_get (heads st) (s0 st)) (\<lambda>h. Inr (P h)) else Inr False)"

definition get_valid_transitions :: "arc_state \<Rightarrow> string list \<Rightarrow> py_error + string list" where
  "get_valid_transitions st transition_set =
     (let valid1 = (if buffer st \<noteq> [] then [''SHIFT''] else []) in
      then_res (head_of_s0_is st (\<lambda>h. h \<noteq> - 1)) (\<lambda>c2.
      let valid2 = (if c2 then valid1 @ [''REDUCE''] else valid1) in
      then_res (if buffer st \<noteq> [] then head_of_s0_is st (\<lambda>h. h = - 1) else Inr False) (\<lambda>c3.
      let valid3 = (if c3 then valid2 @ filter (\<lambda>t. startswith t ''LEFT-'') transition_set
                    else valid2) in
      let valid4 = (if buffer st \<noteq> []
                    then valid3 @ filter (\<lambda>t. startswith t ''RIGHT-'') transition_set
                    else valid3) in
      Inr valid4)))"

text \<open>
  \<open>apply\<close>. \<open>set_arc\<close> is the pair of assignments \<open>heads[dep] = head; labels[dep] = label\<close>,
  \<open>note_child\<close> the \<open>if dep < head\<close> statement that ends both arc branches. A transition
  that is none of the four kinds changes nothing.
\<close>

definition set_arc :: "arc_state \<Rightarrow> int \<Rightarrow> int \<Rightarrow> string \<Rightarrow> py_error + arc_state" where
  "set_arc st dep head label =
     then_res (py_set (heads st) dep head) (\<lambda>hs.
     then_res (py_set (labels st) dep (Some label)) (\<lambda>ls.
     Inr (st\<lparr>heads := hs, labels := ls\<rparr>)))"

definition note_child :: "arc_state \<Rightarrow> int \<Rightarrow> int \<Rightarrow> string \<Rightarrow> py_error + arc_state" where
  "note_child st dep head label =
     (if dep < head then
        then_res (py_set (left_children st) head (Some label)) (\<lambda>lc.
        then_res (py_get (left_dep_count st) head) (\<lambda>c.
        then_res (py_set (left_dep_count st) head (c + 1)) (\<lambda>ldc.
        Inr (st\<lparr>left_children := lc, left_dep_count := ldc\<rparr>))))
      else
        then_res (py_set (right_children st) head (Some label)) (\<lambda>rc.
        then_res (py_get (right_dep_count st) head) (\<lambda>c.
        then_res (py_set (right_dep_count st) head (c + 1)) (\<lambda>rdc.
        Inr (st\<lparr>right_children := rc, right_dep_count := rdc\<rparr>)))))"

definition apply_transition :: "arc_state \<Rightarrow> string \<Rightarrow> py_error + arc_state" where
  "apply_transition st transition =
     (if transition = ''SHIFT'' then
        (if buffer st = [] then Inl IndexError
         else Inr (st\<lparr>stack := stack st @ [hd (buffer st)], buffer := tl (buffer st)\<rparr>))
      else if transition = ''REDUCE'' then
        (if stack st = [] then Inl IndexError
         else Inr (st\<lparr>stack := butlast (stack st)\<rparr>))
      else if startswith transition ''LEFT-'' then
        (let label = drop 5 transition in
         if stack st = [] then Inl IndexError
         else let dep = last (stack st); st1 = st\<lparr>stack := butlast (stack st)\<rparr> in
         if buffer st1 = [] then Inl IndexError
         else let head = hd (buffer st1) in
         then_res (set_arc st1 dep head label) (\<lambda>st2. note_child st2 dep head label))
      else if startswith transition ''RIGHT-'' then
        (let label = drop 6 transition in
         if buffer st = [] then Inl IndexError
         else let dep = hd (buffer st); st1 = st\<lparr>buffer := tl (buffer st)\<rparr> in
         if stack st1 = [] then Inl IndexError
         else let head = last (stack st1) in
         then_res (set_arc st1 dep head label) (\<lambda>st2.
         note_child (st2\<lparr>stack := stack st2 @ [dep]\<rparr>) dep head label))
      else Inr st)"

text \<open>
  A run of the parser: the transitions of \<open>seq\<close> are applied one after the other, each one
  only if \<open>get_valid_transitions\<close> lists it at the configuration where it is applied.
  \<open>None\<close> says that some transition of \<open>seq\<close> was not listed; \<open>Some (Inl e)\<close> that the
  code raised.
\<close>

fun run_valid :: "string list \<Rightarrow> arc_state \<Rightarrow> string list \<Rightarrow> (py_error + arc_state) option" where
  "run_valid transition_set st [] = Some (Inr st)"
| "run_valid transition_set st (t # seq) =
     (case get_valid_transitions st transition_set of
        Inl e \<Rightarrow> Some (Inl e)
      | Inr valid \<Rightarrow>
          if t \<in> set valid then
            (case apply_transition st t of
               Inl e \<Rightarrow> Some (Inl e)
             | Inr st' \<Rightarrow> run_valid transition_set st' seq)
          else None)"

section \<open>The oracles (train\_dep\_parser.py)\<close>

text \<open>
  \<open>dynamic_oracle_cost\<close> returns a Python int or \<open>float('inf')\<close>: an \<open>enat\<close>. The two
  \<open>for j in state.buffer\<close> loops carry \<open>cost\<close>; in the SHIFT loop \<open>state.heads[j]\<close> is read
  only when \<open>gold_heads[j] == s0\<close>, as \<open>and\<close> does.
\<close>

fun shift_cost_loop :: "int list \<Rightarrow> int list \<Rightarrow> int \<Rightarrow> int list \<Rightarrow> nat \<Rightarrow> py_error + nat" where
  "shift_cost_loop gold_heads hs s [] cost = Inr cost"
| "shift_cost_loop gold_heads hs s (j # js) cost =
     then_res (py_get gold_heads j) (\<lambda>g.
       if g = s then
         then_res (py_get hs j) (\<lambda>h.
           shift_cost_loop gold_heads hs s js (if h = - 1 then cost + 1 else cost))
       else shift_cost_loop gold_heads hs s js cost)"

fun reduce_cost_loop :: "int list \<Rightarrow> int \<Rightarrow> int list \<Rightarrow> nat \<Rightarrow> py_error + nat" where
  "reduce_cost_loop gold_heads s [] cost = Inr cost"
| "reduce_cost_loop gold_heads s (j # js) cost =
     then_res (py_get gold_heads j) (\<lambda>g.
       reduce_cost_loop gold_heads s js (if g = s then cost + 1 else cost))"

definition dynamic_oracle_cost ::
  "arc_state \<Rightarrow> string \<Rightarrow> int list \<Rightarrow> string list \<Rightarrow> py_error + enat" where
  "dynamic_oracle_cost st transition gold_heads gold_labels =
     (if transition = ''SHIFT'' then
        (if s0 st > 0 then
           then_res (py_get gold_heads (s0 st)) (\<lambda>g.
           then_res (shift_cost_loop gold_heads (heads st) (s0 st) (buffer st)
                       (if g = b0 st then 1 else 0)) (\<lambda>cost.
           Inr (enat cost)))
         else Inr 0)
      else if transition = ''REDUCE'' then
        (if s0 st > 0 then
           then_res (reduce_cost_loop gold_heads (s0 st) (buffer st) 0) (\<lambda>cost. Inr (enat cost))
         else Inr 0)
      else if startswith transition ''LEFT-'' then
        (let label = drop 5 transition in
         if s0 st \<le> 0 then Inr \<infinity>
         else
           then_res (py_get gold_heads (s0 st)) (\<lambda>g.
           then_res (if g = b0 st then then_res (py_get gold_labels (s0 st)) (\<lambda>l. Inr (l = label))
                     else Inr False) (\<lambda>exact.
           if exact then Inr 0
           else if g = b0 st then Inr 1
           else Inr 1)))
      else if startswith transition ''RIGHT-'' then
        (let label = drop 6 transition in
         if b0 st < 0 then Inr \<infinity>
         else
           then_res (py_get gold_heads (b0 st)) (\<lambda>g.
           then_res (if g = s0 st then then_res (py_get gold_labels (b0 st)) (\<lambda>l. Inr (l = label))
                     else Inr False) (\<lambda>exact.
           if exact then Inr 0
           else if g = s0 st then Inr 1
           else Inr (if g \<noteq> s0 st then 1 else 0))))
      else Inr \<infinity>)"

text \<open>
  \<open>static_oracle\<close> returns a transition or \<open>None\<close>. \<open>any_gold_dep\<close> is
  \<open>any(gold_heads[j] == s0 for j in state.buffer)\<close>, which stops at the first hit.
\<close>

fun any_gold_dep :: "int list \<Rightarrow> int \<Rightarrow> int list \<Rightarrow> py_error + bool" where
  "any_gold_dep gold_heads s [] = Inr False"
| "any_gold_dep gold_heads s (j # js) =
     then_res (py_get gold_heads j) (\<lambda>g.
       if g = s then Inr True else any_gold_dep gold_heads s js)"

definition static_oracle ::
  "arc_state \<Rightarrow> int list \<Rightarrow> string list \<Rightarrow> py_error + string option" where
  "static_oracle st gold_heads gold_labels =
     then_res (if s0 st > 0 \<and> b0 st > 0
               then then_res (py_get gold_heads (s0 st)) (\<lambda>g. Inr (g = b0 st))
               else Inr False) (\<lambda>is_left.
     if is_left then then_res (py_get gold_labels (s0 st)) (\<lambda>l. Inr (Some (''LEFT-'' @ l)))
     else
     then_res (if s0 st \<ge> 0 \<and> b0 st > 0
               then then_res (py_get gold_heads (b0 st)) (\<lambda>g. Inr (g = s0 st))
               else Inr False) (\<lambda>is_right.
     if is_right then then_res (py_get gold_labels (b0 st)) (\<lambda>l. Inr (Some (''RIGHT-'' @ l)))
     else
     then_res (head_of_s0_is st (\<lambda>h. h \<noteq> - 1)) (\<lambda>has_head.
     then_res (if has_head
               then then_res (any_gold_dep gold_heads (s0 st) (buffer st)) (\<lambda>d. Inr (\<not> d))
               else Inr False) (\<lambda>reduce_now.
     if reduce_now then Inr (Some ''REDUCE'')
     else if buffer st \<noteq> [] then Inr (Some ''SHIFT'')
     else
     then_res (head_of_s0_is st (\<lambda>h. h \<noteq> - 1)) (\<lambda>has_head'.
     if has_head' then Inr (Some ''REDUCE'') else Inr None)))))"

text \<open>
  The cost table of the specification (section 4.3), written from its words for a
  configuration whose token ids are in range: \<open>SHIFT\<close>, \<open>REDUCE\<close>, \<open>LEFT-l\<close>, \<open>RIGHT-l\<close>.
\<close>

definition spec_cost_shift :: "arc_state \<Rightarrow> int list \<Rightarrow> enat" where
  "spec_cost_shift st gold_heads =
     enat ((if gold_heads ! nat (s0 st) = b0 st then 1 else 0)
           + length (filter (\<lambda>j. gold_heads ! nat j = s0 st \<and> heads st ! nat j = - 1) (buffer st)))"

definition spec_cost_reduce :: "arc_state \<Rightarrow> int list \<Rightarrow> enat" where
  "spec_cost_reduce st gold_heads =
     enat (length (filter (\<lambda>j. gold_heads ! nat j = s0 st) (buffer st)))"

definition spec_cost_left :: "arc_state \<Rightarrow> string \<Rightarrow> int list \<Rightarrow> string list \<Rightarrow> enat" where
  "spec_cost_left st l gold_heads gold_labels =
     (if s0 st \<le> 0 then \<infinity>
      else if gold_heads ! nat (s0 st) = b0 st \<and> gold_labels ! nat (s0 st) = l then 0
      else if gold_heads ! nat (s0 st) = b0 st then 1
      else 1)"

definition spec_cost_right :: "arc_state \<Rightarrow> string \<Rightarrow> int list \<Rightarrow> string list \<Rightarrow> enat" where
  "spec_cost_right st l gold_heads gold_labels =
     (if b0 st < 0 then \<infinity>
      else if gold_heads ! nat (b0 st) = s0 st \<and> gold_labels ! nat (b0 st) = l then 0
      else if gold_heads ! nat (b0 st) = s0 st then 1
      else 1)"

text \<open>
  Configurations and gold annotations of a sentence of \<open>n_tokens\<close> tokens: every id on the
  stack is in \<open>0..n\<close>, every id in the buffer in \<open>1..n\<close>, and every per-token list has
  \<open>n + 1\<close> entries (entry 0 is ROOT).
\<close>

definition ids_in_range :: "arc_state \<Rightarrow> bool" where
  "ids_in_range st =
     ((\<forall>i \<in> set (stack st). 0 \<le> i \<and> i \<le> int (n_tokens st))
      \<and> (\<forall>j \<in> set (buffer st). 1 \<le> j \<and> j \<le> int (n_tokens st))
      \<and> length (heads st) = n_tokens st + 1)"

definition gold_fits :: "arc_state \<Rightarrow> int list \<Rightarrow> string list \<Rightarrow> bool" where
  "gold_fits st gold_heads gold_labels =
     (length gold_heads = n_tokens st + 1 \<and> length gold_labels = n_tokens st + 1)"

text \<open>
  A three-token example: gold heads \<open>1 \<leftarrow> ROOT\<close>, \<open>2 \<leftarrow> 3\<close>, \<open>3 \<leftarrow> 1\<close> (a projective
  tree), and the configuration after the first static-oracle transition \<open>RIGHT-root\<close>.
\<close>

definition example_gold_heads :: "int list" where
  "example_gold_heads = [0, 0, 3, 1]"

definition example_gold_labels :: "string list" where
  "example_gold_labels = [''ROOT'', ''root'', ''det'', ''obj'']"

definition example_state :: arc_state where
  "example_state =
     \<lparr> stack = [0, 1],
       buffer = [2, 3],
       heads = [- 1, 0, - 1, - 1],
       labels = [None, Some ''root'', None, None],
       left_children = [None, None, None, None],
       right_children = [Some ''root'', None, None, None],
       left_dep_count = [0, 0, 0, 0],
       right_dep_count = [1, 0, 0, 0],
       n_tokens = 3 \<rparr>"

text \<open>
  The crossing test of \<open>measure_non_projective\<close>: the arc of token \<open>i\<close> and the arc of
  token \<open>j\<close> cross. A gold head list is projective when no two arcs cross.
\<close>

definition arcs_cross :: "int list \<Rightarrow> nat \<Rightarrow> nat \<Rightarrow> bool" where
  "arcs_cross hs i j =
     (let hi = hs ! i; lo = min (int i) hi; hi_arc = max (int i) hi;
          hj = hs ! j; lo_j = min (int j) hj; hi_j = max (int j) hj
      in (lo < lo_j \<and> lo_j < hi_arc \<and> hi_arc < hi_j) \<or> (lo_j < lo \<and> lo < hi_j \<and> hi_j < hi_arc))"

definition projective_gold :: "int list \<Rightarrow> bool" where
  "projective_gold hs =
     (\<not> list_ex (\<lambda>i. list_ex (\<lambda>j. j \<noteq> i \<and> arcs_cross hs i j) [1 ..< length hs]) [1 ..< length hs])"

text \<open>
  The invariant behind the claim that ROOT is never popped: besides the ranges of the ids,
  the bottom of the stack is token 0, every id above it is positive, the per-token lists
  keep their \<open>n + 1\<close> entries, and entry 0 of \<open>heads\<close> and \<open>labels\<close> is unset.
\<close>

definition parser_inv :: "arc_state \<Rightarrow> bool" where
  "parser_inv st =
     (ids_in_range st
      \<and> stack st \<noteq> [] \<and> hd (stack st) = 0 \<and> (\<forall>i \<in> set (tl (stack st)). 1 \<le> i)
      \<and> length (labels st) = n_tokens st + 1
      \<and> length (left_children st) = n_tokens st + 1
      \<and> length (right_children st) = n_tokens st + 1
      \<and> length (left_dep_count st) = n_tokens st + 1
      \<and> length (right_dep_count st) = n_tokens st + 1
      \<and> heads st ! 0 = - 1 \<and> labels st ! 0 = None)"

section \<open>The two CoNLL-U readers (train\_pos\_tagger.py and train\_dep\_parser.py)\<close>

text \<open>
  The file is the list of its lines, as \<open>for line in f\<close> yields them. \<open>str.strip\<close>
  removes the whitespace characters from both ends (below code point 256 these are 9 to 13,
  28 to 32, 133 and 160) and \<open>str.split('\t')\<close> cuts at every tab. \<open>int\<close> accepts an
  optional sign and decimal digits, with single underscores between digits; the whitespace
  it allows around them is 9 to 13, 32, 133 and 160, and below code point 256 the only
  decimal digits are 0 to 9.
\<close>

definition isspace :: "char \<Rightarrow> bool" where
  "isspace ch =
     (let c = (of_char ch :: nat)
      in (9 \<le> c \<and> c \<le> 13) \<or> (28 \<le> c \<and> c \<le> 32) \<or> c = 133 \<or> c = 160)"

definition strip :: "string \<Rightarrow> string" where
  "strip s = rev (dropWhile isspace (rev (dropWhile isspace s)))"

definition int_space :: "char \<Rightarrow> bool" where
  "int_space ch =
     (let c = (of_char ch :: nat)
      in (9 \<le> c \<and> c \<le> 13) \<or> c = 32 \<or> c = 133 \<or> c = 160)"

definition isdecimal :: "char \<Rightarrow> bool" where
  "isdecimal ch = (48 \<le> (of_char ch :: nat) \<and> (of_char ch :: nat) \<le> 57)"

fun split_at :: "char \<Rightarrow> string \<Rightarrow> string list" where
  "split_at sep [] = [[]]"
| "split_at sep (ch # s) =
     (if ch = sep then [] # split_at sep s
      else (case split_at sep s of
              [] \<Rightarrow> [[ch]]
            | piece # pieces \<Rightarrow> (ch # piece) # pieces))"

definition tab :: char where
  "tab = CHR 0x09"

definition digit_groups_ok :: "string \<Rightarrow> bool" where
  "digit_groups_ok s = (\<forall>g \<in> set (split_at CHR ''_'' s). g \<noteq> [] \<and> (\<forall>ch \<in> set g. isdecimal ch))"

definition digits_value :: "string \<Rightarrow> int" where
  "digits_value s = foldl (\<lambda>v ch. 10 * v + (int (of_char ch) - 48)) 0 (filter (\<lambda>ch. ch \<noteq> CHR ''_'') s)"

definition py_int :: "string \<Rightarrow> py_error + int" where
  "py_int s =
     (let t = rev (dropWhile int_space (rev (dropWhile int_space s)));
          neg = (t \<noteq> [] \<and> hd t = CHR ''-'');
          body = (if t \<noteq> [] \<and> (hd t = CHR ''-'' \<or> hd t = CHR ''+'') then tl t else t)
      in if digit_groups_ok body
         then Inr (if neg then - digits_value body else digits_value body)
         else Inl ValueError)"

text \<open>
  \<open>parse_conllu\<close> of train\_pos\_tagger.py. The loop state is \<open>(sentences, current)\<close>; a
  sentence is a list of \<open>(form, xpos)\<close>.
\<close>

definition pos_conllu_line ::
  "(string \<times> string) list list \<times> (string \<times> string) list \<Rightarrow> string
   \<Rightarrow> (string \<times> string) list list \<times> (string \<times> string) list" where
  "pos_conllu_line st raw =
     (let sentences = fst st; current = snd st; line = strip raw in
      if line = [] then
        (if current \<noteq> [] then (sentences @ [current], []) else st)
      else if startswith line ''#'' then st
      else let parts = split_at tab line in
      if length parts < 5 then st
      else let tok_id = parts ! 0 in
      if CHR ''-'' \<in> set tok_id \<or> CHR ''.'' \<in> set tok_id then st
      else let form = parts ! 1; xpos = parts ! 4 in
      (sentences, current @ [(form, xpos)]))"

definition pos_parse_conllu :: "string list \<Rightarrow> (string \<times> string) list list" where
  "pos_parse_conllu file_lines =
     (let st = foldl pos_conllu_line ([], []) file_lines in
      if snd st \<noteq> [] then fst st @ [snd st] else fst st)"

text \<open>
  \<open>parse_conllu\<close> of train\_dep\_parser.py. A sentence is a list of
  \<open>(id, form, xpos, head, deprel)\<close>; \<open>int\<close> may raise ValueError, which ends the loop.
\<close>

type_synonym dep_token = "int \<times> string \<times> string \<times> int \<times> string"

definition dep_conllu_line ::
  "dep_token list list \<times> dep_token list \<Rightarrow> string
   \<Rightarrow> py_error + (dep_token list list \<times> dep_token list)" where
  "dep_conllu_line st raw =
     (let sentences = fst st; current = snd st; line = strip raw in
      if line = [] then
        (if current \<noteq> [] then Inr (sentences @ [current], []) else Inr st)
      else if startswith line ''#'' then Inr st
      else let parts = split_at tab line in
      if length parts < 10 then Inr st
      else let tok_id = parts ! 0 in
      if CHR ''-'' \<in> set tok_id \<or> CHR ''.'' \<in> set tok_id then Inr st
      else
        then_res (py_int tok_id) (\<lambda>tid.
        let form = parts ! 1; xpos = parts ! 4 in
        then_res (py_int (parts ! 6)) (\<lambda>head.
        let deprel = parts ! 7 in
        Inr (sentences, current @ [(tid, form, xpos, head, deprel)]))))"

fun dep_conllu_loop ::
  "dep_token list list \<times> dep_token list \<Rightarrow> string list
   \<Rightarrow> py_error + (dep_token list list \<times> dep_token list)" where
  "dep_conllu_loop st [] = Inr st"
| "dep_conllu_loop st (raw # file_lines) =
     then_res (dep_conllu_line st raw) (\<lambda>st'. dep_conllu_loop st' file_lines)"

definition dep_parse_conllu :: "string list \<Rightarrow> py_error + dep_token list list" where
  "dep_parse_conllu file_lines =
     then_res (dep_conllu_loop ([], []) file_lines) (\<lambda>st.
     Inr (if snd st \<noteq> [] then fst st @ [snd st] else fst st))"

text \<open>A token line of seven tab-separated fields, and the same token with all ten.\<close>

definition join_tab :: "string list \<Rightarrow> string" where
  "join_tab pieces = concat (map (\<lambda>f. f @ [tab]) (butlast pieces)) @ last pieces"

definition seven_field_line :: string where
  "seven_field_line = join_tab [''1'', ''dog'', ''dog'', ''NOUN'', ''NN'', ''_'', ''0''] @ [CHR 0x0A]"

definition ten_field_line :: string where
  "ten_field_line =
     join_tab [''1'', ''dog'', ''dog'', ''NOUN'', ''NN'', ''_'', ''0'', ''root'', ''_'', ''_'']
     @ [CHR 0x0A]"

section \<open>The tag dictionary (train\_pos\_tagger.py)\<close>

text \<open>
  \<open>max(tag_counts, key=tag_counts.get)\<close>: the first key, in iteration order, whose count
  is not exceeded by any other. It raises ValueError on an empty dict.
\<close>

fun max_by_count :: "string \<times> nat \<Rightarrow> (string \<times> nat) list \<Rightarrow> string \<times> nat" where
  "max_by_count best [] = best"
| "max_by_count best (kv # row) = max_by_count (if snd kv > snd best then kv else best) row"

definition best_tag_of :: "(string \<times> nat) list \<Rightarrow> py_error + string" where
  "best_tag_of tag_counts =
     (case tag_counts of [] \<Rightarrow> Inl ValueError | kv # row \<Rightarrow> Inr (fst (max_by_count kv row)))"

definition count_tags ::
  "(string \<times> string) list list \<Rightarrow> (string \<times> (string \<times> nat) list) list" where
  "count_tags sentences =
     foldl (\<lambda>word_tag_counts sent.
              foldl (\<lambda>wtc (form, xpos). dict_update form [] (dict_update xpos 0 (\<lambda>c. c + 1)) wtc)
                    word_tag_counts sent)
           [] sentences"

text \<open>
  \<open>build_tagdict\<close>. The quotient \<open>tag_counts[best_tag] / total\<close> and the threshold are
  Python floats; they are compared here as exact rationals, which gives the same answer as
  the double-precision comparison for every word with fewer than \<open>10^14\<close> occurrences.
  The result dict is read only by key, so it is a map.
\<close>

definition tagdict_entry ::
  "nat \<Rightarrow> rat \<Rightarrow> (string \<rightharpoonup> string) \<Rightarrow> string \<times> (string \<times> nat) list
   \<Rightarrow> py_error + (string \<rightharpoonup> string)" where
  "tagdict_entry freq_threshold agreement_threshold tagdict item =
     (let word = fst item; tag_counts = snd item; total = sum_list (map snd tag_counts) in
      if total < freq_threshold then Inr tagdict
      else
        then_res (best_tag_of tag_counts) (\<lambda>best_tag.
        let c = (case map_of tag_counts best_tag of None \<Rightarrow> 0 | Some c \<Rightarrow> c) in
        if total = 0 then Inl ZeroDivisionError
        else if of_nat c / of_nat total \<ge> agreement_threshold
        then Inr (tagdict(word \<mapsto> best_tag))
        else Inr tagdict))"

fun tagdict_loop ::
  "nat \<Rightarrow> rat \<Rightarrow> (string \<rightharpoonup> string) \<Rightarrow> (string \<times> (string \<times> nat) list) list
   \<Rightarrow> py_error + (string \<rightharpoonup> string)" where
  "tagdict_loop freq agree tagdict [] = Inr tagdict"
| "tagdict_loop freq agree tagdict (item # items) =
     then_res (tagdict_entry freq agree tagdict item) (\<lambda>tagdict'.
       tagdict_loop freq agree tagdict' items)"

definition build_tagdict ::
  "(string \<times> string) list list \<Rightarrow> nat \<Rightarrow> rat \<Rightarrow> py_error + (string \<rightharpoonup> string)" where
  "build_tagdict sentences freq_threshold agreement_threshold =
     tagdict_loop freq_threshold agreement_threshold Map.empty (count_tags sentences)"

text \<open>The numbers of the claim: occurrences of a word, and of a word with a tag.\<close>

definition occurrences :: "(string \<times> string) list list \<Rightarrow> string \<Rightarrow> nat" where
  "occurrences sentences w = length (filter (\<lambda>tok. fst tok = w) (concat sentences))"

definition occurrences_with :: "(string \<times> string) list list \<Rightarrow> string \<Rightarrow> string \<Rightarrow> nat" where
  "occurrences_with sentences w t = length (filter (\<lambda>tok. tok = (w, t)) (concat sentences))"

text \<open>Reading the nested count table: the row of a word, and a count in a row.\<close>

definition row_of :: "(string \<times> (string \<times> nat) list) list \<Rightarrow> string \<Rightarrow> (string \<times> nat) list" where
  "row_of wtc w = (case map_of wtc w of None \<Rightarrow> [] | Some row \<Rightarrow> row)"

definition count_in :: "(string \<times> nat) list \<Rightarrow> string \<Rightarrow> nat" where
  "count_in row t = (case map_of row t of None \<Rightarrow> 0 | Some c \<Rightarrow> c)"

definition count_step ::
  "(string \<times> (string \<times> nat) list) list \<Rightarrow> string \<times> string
   \<Rightarrow> (string \<times> (string \<times> nat) list) list" where
  "count_step wtc tok = dict_update (fst tok) [] (dict_update (snd tok) 0 (\<lambda>c. c + 1)) wtc"

section \<open>The averaged perceptron (both training scripts)\<close>

text \<open>
  \<open>AveragedPerceptron\<close> has the same \<open>update\<close> and \<open>average_weights\<close> in
  train\_pos\_tagger.py and in train\_dep\_parser.py. Weights and totals are Python floats.
  Their type is left open here: \<open>+\<close>, \<open>-\<close>, \<open>*\<close>, \<open>/\<close>, \<open>0\<close> and \<open>1\<close> are the
  operations of any type that has them, with no law assumed, and \<open>to_float\<close> is the
  conversion of a Python int that \<open>int * float\<close> and \<open>float / int\<close> perform. What is
  proved holds for IEEE doubles as for exact numbers.
\<close>

record 'a perceptron =
  classes :: "string list"
  weights :: "(string \<times> (string \<times> 'a) list) list"
  totals :: "(string \<times> (string \<times> 'a) list) list"
  tstamps :: "(string \<times> (string \<times> int) list) list"
  step :: int

definition new_perceptron :: "string list \<Rightarrow> 'a perceptron" where
  "new_perceptron cs = \<lparr> classes = cs, weights = [], totals = [], tstamps = [], step = 0 \<rparr>"

text \<open>
  The body of \<open>for cls in [truth, guess]\<close>: reading \<open>self._tstamps[feat][cls]\<close> and
  \<open>self.weights[feat][cls]\<close> creates the cells with their defaults.
\<close>

definition accumulate ::
  "(int \<Rightarrow> 'a) \<Rightarrow> 'a::{zero,plus,times} perceptron \<Rightarrow> string \<Rightarrow> string \<Rightarrow> 'a perceptron" where
  "accumulate to_float m feat cls =
     (let ts = cell_or 0 (tstamps m) feat cls;
          w = cell_or 0 (weights m) feat cls
      in m\<lparr> totals := cell_update feat cls 0 (\<lambda>t. t + to_float (step m - ts) * w) (totals m),
             tstamps := cell_update feat cls 0 (\<lambda>_. step m) (tstamps m),
             weights := cell_update feat cls 0 (\<lambda>w. w) (weights m) \<rparr>)"

text \<open>The body of \<open>for feat in features\<close>.\<close>

definition update_feature ::
  "(int \<Rightarrow> 'a) \<Rightarrow> string \<Rightarrow> string \<Rightarrow> 'a::{zero,one,plus,minus,times} perceptron \<Rightarrow> string
   \<Rightarrow> 'a perceptron" where
  "update_feature to_float truth guess m feat =
     (let m1 = accumulate to_float m feat truth;
          m2 = accumulate to_float m1 feat guess;
          m3 = m2\<lparr> weights := cell_update feat truth 0 (\<lambda>w. w + 1) (weights m2) \<rparr>
      in m3\<lparr> weights := cell_update feat guess 0 (\<lambda>w. w - 1) (weights m3) \<rparr>)"

definition update ::
  "(int \<Rightarrow> 'a) \<Rightarrow> 'a::{zero,one,plus,minus,times} perceptron \<Rightarrow> string \<Rightarrow> string \<Rightarrow> string list
   \<Rightarrow> 'a perceptron" where
  "update to_float m truth guess features =
     (let m0 = m\<lparr> step := step m + 1 \<rparr> in
      if truth = guess then m0
      else foldl (update_feature to_float truth guess) m0 features)"

text \<open>
  \<open>average_weights\<close>. It returns the averaged dict; the object keeps the incremented step
  and the cells of \<open>_totals\<close> and \<open>_tstamps\<close> that the reads created. \<open>total / self._step\<close>
  raises ZeroDivisionError when the step is 0 and there is a cell to average.
\<close>

definition averaged_cell ::
  "(int \<Rightarrow> 'a) \<Rightarrow> 'a::{zero,plus,times,inverse} perceptron \<Rightarrow> int \<Rightarrow> string \<Rightarrow> string \<Rightarrow> 'a \<Rightarrow> 'a" where
  "averaged_cell to_float m stp feat cls w =
     (let total = cell_or 0 (totals m) feat cls;
          total' = total + to_float (stp - cell_or 0 (tstamps m) feat cls) * w
      in total' / to_float stp)"

definition averaged_row ::
  "(int \<Rightarrow> 'a) \<Rightarrow> 'a::{zero,plus,times,inverse} perceptron \<Rightarrow> int \<Rightarrow> string \<Rightarrow> (string \<times> 'a) list
   \<Rightarrow> (string \<times> 'a) list" where
  "averaged_row to_float m stp feat row =
     filter (\<lambda>kv. snd kv \<noteq> 0)
       (map (\<lambda>kv. (fst kv, averaged_cell to_float m stp feat (fst kv) (snd kv))) row)"

definition touch_cells ::
  "'v \<Rightarrow> (string \<times> (string \<times> 'w) list) list \<Rightarrow> (string \<times> (string \<times> 'v) list) list
   \<Rightarrow> (string \<times> (string \<times> 'v) list) list" where
  "touch_cells dflt ws d =
     foldl (\<lambda>d frow. foldl (\<lambda>d kv. cell_update (fst frow) (fst kv) dflt (\<lambda>v. v) d) d (snd frow)) d ws"

definition average_weights ::
  "(int \<Rightarrow> 'a) \<Rightarrow> 'a::{zero,plus,times,inverse} perceptron
   \<Rightarrow> py_error + ((string \<times> (string \<times> 'a) list) list \<times> 'a perceptron)" where
  "average_weights to_float m =
     (let m1 = m\<lparr> step := step m + 1 \<rparr> in
      if step m1 = 0 \<and> list_ex (\<lambda>frow. snd frow \<noteq> []) (weights m1) then Inl ZeroDivisionError
      else
        let averaged =
              filter (\<lambda>frow. snd frow \<noteq> [])
                (map (\<lambda>frow. (fst frow, averaged_row to_float m1 (step m1) (fst frow) (snd frow)))
                     (weights m1))
        in Inr (averaged, m1\<lparr> totals := touch_cells 0 (weights m1) (totals m1),
                               tstamps := touch_cells 0 (weights m1) (tstamps m1) \<rparr>))"

definition perceptron_ok :: "'a perceptron \<Rightarrow> bool" where
  "perceptron_ok m = (dict_ok (weights m) \<and> dict_ok (totals m) \<and> dict_ok (tstamps m))"

text \<open>A two-class example over exact rationals: two updates, then averaging.\<close>

definition example_model :: "rat perceptron" where
  "example_model =
     update of_int (update of_int (new_perceptron [''A'', ''B'']) ''A'' ''B'' [''f1'', ''f2''])
       ''B'' ''A'' [''f1'']"

section \<open>Python values: basic facts\<close>

lemma then_res_simps [simp]:
  "then_res (Inr x) f = f x"
  "then_res (Inl e) f = Inl e"
  by (simp_all add: then_res_def)

lemma then_res_Inr_iff: "then_res r f = Inr y \<longleftrightarrow> (\<exists>x. r = Inr x \<and> f x = Inr y)"
  by (cases r) simp_all

lemma py_get_in_range: "0 \<le> i \<Longrightarrow> i < int (length xs) \<Longrightarrow> py_get xs i = Inr (xs ! nat i)"
  by (simp add: py_get_def py_index_def)

lemma py_set_in_range: "0 \<le> i \<Longrightarrow> i < int (length xs) \<Longrightarrow> py_set xs i v = Inr (xs[nat i := v])"
  by (simp add: py_set_def py_index_def)

lemma map_of_dict_update:
  "map_of (dict_update k d f m) = (map_of m)(k \<mapsto> f (case map_of m k of None \<Rightarrow> d | Some v \<Rightarrow> v))"
  by (induction m) (auto simp: fun_eq_iff)

lemma keys_dict_update: "fst ` set (dict_update k d f m) = insert k (fst ` set m)"
  by (induction k d f m rule: dict_update.induct) auto

lemma distinct_dict_update:
  "distinct (map fst m) \<Longrightarrow> distinct (map fst (dict_update k d f m))"
proof (induction m)
  case Nil
  show ?case by simp
next
  case (Cons kv m)
  obtain k' v where kv: "kv = (k', v)" by (cases kv)
  show ?case
  proof (cases "k' = k")
    case True
    then show ?thesis using Cons.prems kv by simp
  next
    case False
    have "k' \<notin> fst ` set (dict_update k d f m)"
      using Cons.prems kv False by (simp add: keys_dict_update)
    then show ?thesis using Cons kv False by simp
  qed
qed

section \<open>Word shapes: results\<close>

lemma remdups_adj_Cons_tl: "remdups_adj (p # xs) = p # tl (remdups_adj (p # xs))"
proof -
  have "remdups_adj (p # xs) \<noteq> []" by simp
  moreover have "hd (remdups_adj (p # xs)) = p" by (simp only: hd_remdups_adj list.sel)
  ultimately show ?thesis by (cases "remdups_adj (p # xs)") auto
qed

lemma shape_fold_some:
  assumes "\<And>st ch. body st ch = (if Some (cls ch) \<noteq> snd st then (fst st @ [cls ch], Some (cls ch)) else st)"
  shows "fst (foldl body (acc, Some p) w) = acc @ tl (remdups_adj (p # map cls w))"
proof (induction w arbitrary: acc p)
  case Nil
  show ?case by simp
next
  case (Cons ch w)
  show ?case
  proof (cases "cls ch = p")
    case True
    then have "body (acc, Some p) ch = (acc, Some p)" by (simp add: assms)
    then show ?thesis using Cons[of acc p] True by simp
  next
    case False
    then have "body (acc, Some p) ch = (acc @ [cls ch], Some (cls ch))" by (simp add: assms)
    then show ?thesis using Cons[of "acc @ [cls ch]" "cls ch"] False by simp
  qed
qed

lemma shape_fold_none:
  assumes "\<And>st ch. body st ch = (if Some (cls ch) \<noteq> snd st then (fst st @ [cls ch], Some (cls ch)) else st)"
  shows "fst (foldl body ([], None) w) = remdups_adj (map cls w)"
proof (cases w)
  case Nil
  then show ?thesis by simp
next
  case (Cons ch w')
  have "body ([], None) ch = ([cls ch], Some (cls ch))" by (simp add: assms)
  then have "fst (foldl body ([], None) w) = [cls ch] @ tl (remdups_adj (cls ch # map cls w'))"
    using Cons shape_fold_some[of body cls "[cls ch]" "cls ch" w', OF assms] by simp
  also have "\<dots> = remdups_adj (cls ch # map cls w')"
    using remdups_adj_Cons_tl[of "cls ch" "map cls w'"] by simp
  finally show ?thesis using Cons by simp
qed

lemma pos_word_shape_remdups: "pos_word_shape u w = remdups_adj (map (pos_shape_class u) w)"
  unfolding pos_word_shape_def
  by (rule shape_fold_none) (simp add: pos_shape_step_def Let_def)

lemma dep_word_shape_remdups:
  "dep_word_shape u w = (if w = [] then [120] else remdups_adj (map (dep_shape_class u) w))"
  unfolding dep_word_shape_def
  using shape_fold_none[of "dep_shape_step u" "dep_shape_class u" w]
  by (simp add: dep_shape_step_def Let_def)

lemma shape_classes_agree:
  "isupper u ch \<or> islower u ch \<or> isdigit u ch \<or> ch = 45 \<or> ch = 46
   \<Longrightarrow> dep_shape_class u ch = pos_shape_class u ch"
  by (auto simp: dep_shape_class_def pos_shape_class_def)

lemma dep_shape_alphabet: "dep_shape_class u ch \<in> {88, 120, 100, 45, 46}"
  by (simp add: dep_shape_class_def)

lemma pos_shape_other:
  assumes "isupper u 88" "islower u 120" "islower u 100"
    and "\<not> (isupper u ch \<or> islower u ch \<or> isdigit u ch \<or> ch = 45 \<or> ch = 46)"
  shows "pos_shape_class u ch \<notin> {88, 120, 100, 45, 46}"
  using assms by (auto simp: pos_shape_class_def)

text \<open>
  Claim C8, as the code has it. Whatever the Unicode tests answer, the POS script's
  \<open>_word_shape\<close> is the rule of the spec: each character becomes \<open>X\<close> (uppercase),
  \<open>x\<close> (lowercase), \<open>d\<close> (digit) or itself, and adjacent equal symbols are collapsed.
  The parser script's \<open>_word_shape\<close> keeps a hyphen, maps every other character to a
  full stop, collapses adjacent equal symbols and returns \<open>x\<close> for the empty word. Given
  that \<open>X\<close> is an uppercase and \<open>x\<close> and \<open>d\<close> are lowercase letters, the two
  functions return the same shape exactly for the non-empty words made of uppercase
  letters, lowercase letters, digits, hyphens and full stops, and different shapes for
  every other word.
\<close>

theorem word_shape_rules:
  assumes "isupper u 88" and "islower u 120" and "islower u 100"
  shows "pos_word_shape u w = remdups_adj (map (pos_shape_class u) w)
   \<and> dep_word_shape u w = (if w = [] then [120] else remdups_adj (map (dep_shape_class u) w))
   \<and> (dep_word_shape u w = pos_word_shape u w
        \<longleftrightarrow> w \<noteq> [] \<and> (\<forall>ch \<in> set w. isupper u ch \<or> islower u ch \<or> isdigit u ch
                                        \<or> ch = 45 \<or> ch = 46))"
proof -
  let ?plain = "\<lambda>ch. isupper u ch \<or> islower u ch \<or> isdigit u ch \<or> ch = 45 \<or> ch = 46"
  have same: "dep_word_shape u w = pos_word_shape u w" if "w \<noteq> []" and "\<forall>ch \<in> set w. ?plain ch"
  proof -
    have "map (dep_shape_class u) w = map (pos_shape_class u) w"
      using that(2) by (intro map_cong refl shape_classes_agree) blast
    then show ?thesis
      using that(1) by (simp only: pos_word_shape_remdups dep_word_shape_remdups if_False)
  qed
  have empty: "dep_word_shape u [] \<noteq> pos_word_shape u []"
    by (simp add: pos_word_shape_remdups dep_word_shape_remdups)
  have other: "dep_word_shape u w \<noteq> pos_word_shape u w"
    if "w \<noteq> []" and "ch \<in> set w" and "\<not> ?plain ch" for ch
  proof
    assume eq: "dep_word_shape u w = pos_word_shape u w"
    have "pos_shape_class u ch \<in> set (pos_word_shape u w)"
      using that(2) by (simp add: pos_word_shape_remdups)
    then have "pos_shape_class u ch \<in> set (dep_word_shape u w)" using eq by simp
    then have "pos_shape_class u ch \<in> dep_shape_class u ` set w"
      using that(1) by (simp add: dep_word_shape_remdups)
    then obtain ch' where "pos_shape_class u ch = dep_shape_class u ch'" by auto
    then have "pos_shape_class u ch \<in> {88, 120, 100, 45, 46}"
      using dep_shape_alphabet[of u ch'] by simp
    then show False using pos_shape_other[OF assms that(3)] by blast
  qed
  have "dep_word_shape u w = pos_word_shape u w \<longleftrightarrow> w \<noteq> [] \<and> (\<forall>ch \<in> set w. ?plain ch)"
    using same empty other by blast
  then show ?thesis
    using pos_word_shape_remdups[of u w] dep_word_shape_remdups[of u w] by blast
qed

theorem word_shape_rules_witness:
  "isupper ascii_tests 88 \<and> islower ascii_tests 120 \<and> islower ascii_tests 100
   \<and> pos_word_shape ascii_tests (code_points ''U.S.-42nd'') = code_points ''X.X.-dx''
   \<and> dep_word_shape ascii_tests (code_points ''U.S.-42nd'') = code_points ''X.X.-dx''
   \<and> dep_word_shape ascii_tests (code_points ''a,b'') \<noteq> pos_word_shape ascii_tests (code_points ''a,b'')"
proof -
  have t: "isupper ascii_tests 88" "islower ascii_tests 120" "islower ascii_tests 100"
    by (simp_all add: ascii_tests_def)
  show ?thesis
    using t word_shape_rules[OF t, of "code_points ''U.S.-42nd''"]
      word_shape_rules[OF t, of "code_points ''a,b''"]
    by (simp add: pos_shape_class_def dep_shape_class_def ascii_tests_def code_points_def)
qed

text \<open>
  Claim C8 as stated fails: on the one-character word made of a comma (code point 44, which
  is no letter and no digit), the POS script returns the comma and the parser script
  returns a full stop (code point 46).
\<close>

theorem word_shape_counterexample:
  "pos_word_shape ascii_tests (code_points '','') = code_points '',''
   \<and> dep_word_shape ascii_tests (code_points '','') = code_points ''.''
   \<and> pos_word_shape ascii_tests (code_points '','') \<noteq> dep_word_shape ascii_tests (code_points '','')"
  by (simp add: pos_word_shape_def dep_word_shape_def pos_shape_step_def dep_shape_step_def
      pos_shape_class_def dep_shape_class_def ascii_tests_def code_points_def Let_def)

section \<open>The dynamic oracle's cost table\<close>

lemma shift_cost_loop_count:
  assumes "\<forall>j \<in> set js. 0 \<le> j \<and> j < int (length gh) \<and> j < int (length hs)"
  shows "shift_cost_loop gh hs s js c
         = Inr (c + length (filter (\<lambda>j. gh ! nat j = s \<and> hs ! nat j = - 1) js))"
  using assms
proof (induction js arbitrary: c)
  case Nil
  show ?case by simp
next
  case (Cons j js)
  then have j: "0 \<le> j" "j < int (length gh)" "j < int (length hs)"
    and rest: "\<forall>j \<in> set js. 0 \<le> j \<and> j < int (length gh) \<and> j < int (length hs)"
    by simp_all
  show ?case
    by (simp add: py_get_in_range[OF j(1,2)] py_get_in_range[OF j(1,3)] Cons.IH[OF rest])
qed

lemma reduce_cost_loop_count:
  assumes "\<forall>j \<in> set js. 0 \<le> j \<and> j < int (length gh)"
  shows "reduce_cost_loop gh s js c = Inr (c + length (filter (\<lambda>j. gh ! nat j = s) js))"
  using assms
proof (induction js arbitrary: c)
  case Nil
  show ?case by simp
next
  case (Cons j js)
  then have j: "0 \<le> j" "j < int (length gh)"
    and rest: "\<forall>j \<in> set js. 0 \<le> j \<and> j < int (length gh)"
    by simp_all
  show ?case
    by (simp add: py_get_in_range[OF j] Cons.IH[OF rest])
qed

lemma s0_in_range:
  assumes "ids_in_range st" "s0 st > 0"
  shows "s0 st \<le> int (n_tokens st)" "stack st \<noteq> []" "s0 st = last (stack st)"
proof -
  show ne: "stack st \<noteq> []" using assms(2) by (auto simp: s0_def split: if_splits)
  then show eq: "s0 st = last (stack st)" by (simp add: s0_def)
  have "last (stack st) \<in> set (stack st)" using ne by simp
  then show "s0 st \<le> int (n_tokens st)" using assms(1) eq by (simp add: ids_in_range_def)
qed

lemma b0_in_range:
  assumes "ids_in_range st" "buffer st \<noteq> []"
  shows "1 \<le> b0 st" "b0 st \<le> int (n_tokens st)" "b0 st = hd (buffer st)"
proof -
  have "hd (buffer st) \<in> set (buffer st)" using assms(2) by simp
  then show "1 \<le> b0 st" "b0 st \<le> int (n_tokens st)"
    using assms by (simp_all add: ids_in_range_def b0_def)
  show "b0 st = hd (buffer st)" using assms(2) by (simp add: b0_def)
qed

lemma b0_negative_iff: "ids_in_range st \<Longrightarrow> b0 st < 0 \<longleftrightarrow> buffer st = []"
  using b0_in_range(1)[of st] by (cases "buffer st = []") (auto simp: b0_def)

lemma buffer_in_range:
  assumes "ids_in_range st" "gold_fits st gh gl"
  shows "\<forall>j \<in> set (buffer st). 0 \<le> j \<and> j < int (length gh) \<and> j < int (length (heads st))"
  using assms by (auto simp: ids_in_range_def gold_fits_def)

lemma cost_shift:
  assumes "ids_in_range st" "gold_fits st gh gl" "s0 st > 0"
  shows "dynamic_oracle_cost st ''SHIFT'' gh gl = Inr (spec_cost_shift st gh)"
proof -
  have g: "py_get gh (s0 st) = Inr (gh ! nat (s0 st))"
    using s0_in_range(1)[OF assms(1,3)] assms(2,3) by (intro py_get_in_range) (auto simp: gold_fits_def)
  show ?thesis
    using assms(3)
    by (simp add: dynamic_oracle_cost_def g spec_cost_shift_def
        shift_cost_loop_count[OF buffer_in_range[OF assms(1,2)]])
qed

lemma cost_reduce:
  assumes "ids_in_range st" "gold_fits st gh gl" "s0 st > 0"
  shows "dynamic_oracle_cost st ''REDUCE'' gh gl = Inr (spec_cost_reduce st gh)"
proof -
  have "\<forall>j \<in> set (buffer st). 0 \<le> j \<and> j < int (length gh)"
    using buffer_in_range[OF assms(1,2)] by blast
  then show ?thesis
    using assms(3)
    by (simp add: dynamic_oracle_cost_def spec_cost_reduce_def reduce_cost_loop_count)
qed

lemma cost_left:
  assumes "ids_in_range st" "gold_fits st gh gl"
  shows "dynamic_oracle_cost st (''LEFT-'' @ l) gh gl = Inr (spec_cost_left st l gh gl)"
proof (cases "s0 st \<le> 0")
  case True
  then show ?thesis
    by (simp add: dynamic_oracle_cost_def startswith_def spec_cost_left_def)
next
  case False
  then have pos: "s0 st > 0" by simp
  have r: "0 \<le> s0 st" "s0 st < int (length gh)" "s0 st < int (length gl)"
    using s0_in_range(1)[OF assms(1) pos] assms(2) pos by (auto simp: gold_fits_def)
  show ?thesis
    using pos
    by (simp add: dynamic_oracle_cost_def startswith_def spec_cost_left_def
        py_get_in_range[OF r(1,2)] py_get_in_range[OF r(1,3)] zero_enat_def one_enat_def)
qed

lemma cost_right:
  assumes "ids_in_range st" "gold_fits st gh gl"
  shows "dynamic_oracle_cost st (''RIGHT-'' @ l) gh gl = Inr (spec_cost_right st l gh gl)"
proof (cases "b0 st < 0")
  case True
  then show ?thesis
    by (simp add: dynamic_oracle_cost_def startswith_def spec_cost_right_def)
next
  case False
  then have ne: "buffer st \<noteq> []" using b0_negative_iff[OF assms(1)] by simp
  have r: "0 \<le> b0 st" "b0 st < int (length gh)" "b0 st < int (length gl)"
    using b0_in_range(1,2)[OF assms(1) ne] assms(2) by (auto simp: gold_fits_def)
  show ?thesis
    using False
    by (simp add: dynamic_oracle_cost_def startswith_def spec_cost_right_def
        py_get_in_range[OF r(1,2)] py_get_in_range[OF r(1,3)] zero_enat_def one_enat_def)
qed

lemma dynamic_oracle_cost_at_root:
  "s0 st \<le> 0 \<Longrightarrow> dynamic_oracle_cost st ''SHIFT'' gh gl = Inr 0
                 \<and> dynamic_oracle_cost st ''REDUCE'' gh gl = Inr 0"
  by (simp add: dynamic_oracle_cost_def)

text \<open>
  Claim C2, as the code has it. On a configuration of an \<open>n\<close>-token sentence with gold
  lists of \<open>n + 1\<close> entries, \<open>dynamic_oracle_cost\<close> returns the value of the
  specification's cost table for LEFT-l and RIGHT-l (infinity included) for every \<open>s0\<close>
  and \<open>b0\<close>, and for SHIFT and REDUCE when \<open>s0 > 0\<close>; when \<open>s0 \<le> 0\<close> (ROOT or
  nothing on top of the stack) SHIFT and REDUCE cost 0, whatever the table's counts are.
\<close>

theorem dynamic_oracle_cost_table:
  assumes "ids_in_range st" and "gold_fits st gold_heads gold_labels"
  shows "dynamic_oracle_cost st ''SHIFT'' gold_heads gold_labels
              = Inr (if s0 st > 0 then spec_cost_shift st gold_heads else 0)
       \<and> dynamic_oracle_cost st ''REDUCE'' gold_heads gold_labels
              = Inr (if s0 st > 0 then spec_cost_reduce st gold_heads else 0)
       \<and> dynamic_oracle_cost st (''LEFT-'' @ l) gold_heads gold_labels
              = Inr (spec_cost_left st l gold_heads gold_labels)
       \<and> dynamic_oracle_cost st (''RIGHT-'' @ l) gold_heads gold_labels
              = Inr (spec_cost_right st l gold_heads gold_labels)"
proof (cases "s0 st > 0")
  case True
  then show ?thesis
    using cost_shift[OF assms True] cost_reduce[OF assms True] cost_left[OF assms]
      cost_right[OF assms]
    by simp
next
  case False
  then have "s0 st \<le> 0" by simp
  then show ?thesis
    using dynamic_oracle_cost_at_root[of st gold_heads gold_labels] cost_left[OF assms]
      cost_right[OF assms]
    by simp
qed

theorem dynamic_oracle_cost_table_witness:
  "ids_in_range example_state
   \<and> gold_fits example_state example_gold_heads example_gold_labels
   \<and> s0 example_state > 0
   \<and> dynamic_oracle_cost example_state ''SHIFT'' example_gold_heads example_gold_labels = Inr 1
   \<and> dynamic_oracle_cost example_state ''REDUCE'' example_gold_heads example_gold_labels = Inr 1
   \<and> dynamic_oracle_cost example_state ''LEFT-det'' example_gold_heads example_gold_labels = Inr 1
   \<and> dynamic_oracle_cost example_state ''RIGHT-det'' example_gold_heads example_gold_labels = Inr 1"
  using dynamic_oracle_cost_table[of example_state example_gold_heads example_gold_labels "''det''"]
  by (simp add: ids_in_range_def gold_fits_def example_state_def example_gold_heads_def
      example_gold_labels_def s0_def b0_def spec_cost_shift_def spec_cost_reduce_def
      spec_cost_left_def spec_cost_right_def one_enat_def)

text \<open>
  Claim C2 as stated fails in its REDUCE row. At the initial configuration of a three-token
  sentence ROOT is on top of the stack (\<open>s0 = 0\<close>) and token 1, whose gold head is 0, is
  in the buffer: the table's count is 1, and \<open>dynamic_oracle_cost\<close> returns 0, because its
  loop runs only \<open>if s0 > 0\<close>.
\<close>

theorem dynamic_oracle_cost_table_counterexample:
  "s0 (init_state 3) = 0
   \<and> spec_cost_reduce (init_state 3) example_gold_heads = 1
   \<and> dynamic_oracle_cost (init_state 3) ''REDUCE'' example_gold_heads example_gold_labels = Inr 0
   \<and> dynamic_oracle_cost (init_state 3) ''REDUCE'' example_gold_heads example_gold_labels
       \<noteq> Inr (spec_cost_reduce (init_state 3) example_gold_heads)"
  by code_simp

section \<open>The static oracle against the dynamic oracle\<close>

lemma any_gold_dep_exists:
  assumes "\<forall>j \<in> set js. 0 \<le> j \<and> j < int (length gh)"
  shows "any_gold_dep gh s js = Inr (\<exists>j \<in> set js. gh ! nat j = s)"
  using assms
proof (induction js)
  case Nil
  show ?case by simp
next
  case (Cons j js)
  then have j: "0 \<le> j" "j < int (length gh)"
    and rest: "\<forall>j \<in> set js. 0 \<le> j \<and> j < int (length gh)"
    by simp_all
  show ?case
    by (simp add: py_get_in_range[OF j] Cons.IH[OF rest])
qed

lemma head_of_s0_in_range:
  assumes "ids_in_range st"
  shows "head_of_s0_is st P = Inr (s0 st > 0 \<and> P (heads st ! nat (s0 st)))"
proof (cases "s0 st > 0")
  case True
  have "s0 st < int (length (heads st))"
    using s0_in_range(1)[OF assms True] assms by (simp add: ids_in_range_def)
  then show ?thesis
    using True by (simp add: head_of_s0_is_def py_get_in_range)
next
  case False
  then show ?thesis by (simp add: head_of_s0_is_def)
qed

lemma b0_positive_iff: "ids_in_range st \<Longrightarrow> b0 st > 0 \<longleftrightarrow> buffer st \<noteq> []"
  using b0_in_range(1)[of st] by (cases "buffer st = []") (auto simp: b0_def)

text \<open>On a configuration in range the static oracle does not raise; its six cases:\<close>

lemma static_oracle_in_range:
  assumes "ids_in_range st" and "gold_fits st gh gl"
  shows "static_oracle st gh gl =
     Inr (if s0 st > 0 \<and> b0 st > 0 \<and> gh ! nat (s0 st) = b0 st
            then Some (''LEFT-'' @ gl ! nat (s0 st))
          else if s0 st \<ge> 0 \<and> b0 st > 0 \<and> gh ! nat (b0 st) = s0 st
            then Some (''RIGHT-'' @ gl ! nat (b0 st))
          else if s0 st > 0 \<and> heads st ! nat (s0 st) \<noteq> - 1
                  \<and> \<not> (\<exists>j \<in> set (buffer st). gh ! nat j = s0 st)
            then Some ''REDUCE''
          else if buffer st \<noteq> [] then Some ''SHIFT''
          else if s0 st > 0 \<and> heads st ! nat (s0 st) \<noteq> - 1 then Some ''REDUCE''
          else None)"
proof -
  have len: "length gh = n_tokens st + 1" "length gl = n_tokens st + 1"
    using assms(2) by (simp_all add: gold_fits_def)
  have gs: "py_get gh (s0 st) = Inr (gh ! nat (s0 st))"
           "py_get gl (s0 st) = Inr (gl ! nat (s0 st))" if "s0 st > 0"
    using s0_in_range(1)[OF assms(1) that] that len by (simp_all add: py_get_in_range)
  have gb: "py_get gh (b0 st) = Inr (gh ! nat (b0 st))"
           "py_get gl (b0 st) = Inr (gl ! nat (b0 st))" if "b0 st > 0"
  proof -
    have "buffer st \<noteq> []" using that b0_positive_iff[OF assms(1)] by simp
    then show "py_get gh (b0 st) = Inr (gh ! nat (b0 st))"
      "py_get gl (b0 st) = Inr (gl ! nat (b0 st))"
      using b0_in_range(1,2)[OF assms(1)] len by (simp_all add: py_get_in_range)
  qed
  have any: "any_gold_dep gh (s0 st) (buffer st) = Inr (\<exists>j \<in> set (buffer st). gh ! nat j = s0 st)"
    using buffer_in_range[OF assms] by (intro any_gold_dep_exists) blast
  show ?thesis
    unfolding static_oracle_def head_of_s0_in_range[OF assms(1)] any
    using gs gb by (auto simp: b0_positive_iff[OF assms(1)])
qed

text \<open>
  Claim C1, as the code has it. On a configuration of an \<open>n\<close>-token sentence with gold
  lists of \<open>n + 1\<close> entries, whenever \<open>static_oracle\<close> returns a transition, that
  transition has dynamic-oracle cost 0, except that a returned SHIFT with \<open>s0 > 0\<close> costs
  the number of buffer tokens whose gold head is \<open>s0\<close> and whose head is still unset.
  No projectivity is needed for this.
\<close>

theorem static_oracle_cost:
  assumes "ids_in_range st" and "gold_fits st gold_heads gold_labels"
    and "static_oracle st gold_heads gold_labels = Inr (Some t)"
  shows "dynamic_oracle_cost st t gold_heads gold_labels =
           Inr (if t = ''SHIFT'' \<and> s0 st > 0
                then enat (length (filter (\<lambda>j. gold_heads ! nat j = s0 st \<and> heads st ! nat j = - 1)
                                     (buffer st)))
                else 0)"
proof -
  let ?gh = gold_heads and ?gl = gold_labels
  note so = static_oracle_in_range[OF assms(1,2)]
  consider
      (left) "s0 st > 0" "b0 st > 0" "?gh ! nat (s0 st) = b0 st"
    | (right) "\<not> (s0 st > 0 \<and> b0 st > 0 \<and> ?gh ! nat (s0 st) = b0 st)"
        "s0 st \<ge> 0" "b0 st > 0" "?gh ! nat (b0 st) = s0 st"
    | (reduce) "\<not> (s0 st > 0 \<and> b0 st > 0 \<and> ?gh ! nat (s0 st) = b0 st)"
        "\<not> (s0 st \<ge> 0 \<and> b0 st > 0 \<and> ?gh ! nat (b0 st) = s0 st)"
        "s0 st > 0" "\<not> (\<exists>j \<in> set (buffer st). ?gh ! nat j = s0 st)" "t = ''REDUCE''"
    | (shift) "\<not> (s0 st > 0 \<and> b0 st > 0 \<and> ?gh ! nat (s0 st) = b0 st)"
        "buffer st \<noteq> []" "t = ''SHIFT''"
    | (reduce') "buffer st = []" "s0 st > 0" "t = ''REDUCE''"
    using assms(3) unfolding so by (auto split: if_splits)
  then show ?thesis
  proof cases
    case left
    then have "t = ''LEFT-'' @ ?gl ! nat (s0 st)" using assms(3) unfolding so by simp
    then show ?thesis
      using cost_left[OF assms(1,2), of "?gl ! nat (s0 st)"] left
      by (simp add: spec_cost_left_def)
  next
    case right
    then have "t = ''RIGHT-'' @ ?gl ! nat (b0 st)"
      using assms(3) unfolding so by (auto split: if_splits)
    then show ?thesis
      using cost_right[OF assms(1,2), of "?gl ! nat (b0 st)"] right
      by (simp add: spec_cost_right_def)
  next
    case reduce
    have "filter (\<lambda>j. ?gh ! nat j = s0 st) (buffer st) = []"
      using reduce(4) by (simp add: filter_empty_conv)
    then show ?thesis
      using cost_reduce[OF assms(1,2) reduce(3)] reduce(5)
      by (simp add: spec_cost_reduce_def zero_enat_def)
  next
    case shift
    show ?thesis
    proof (cases "s0 st > 0")
      case True
      have "b0 st > 0" using shift(2) b0_positive_iff[OF assms(1)] by simp
      then have "?gh ! nat (s0 st) \<noteq> b0 st" using shift(1) True by simp
      then show ?thesis
        using cost_shift[OF assms(1,2) True] shift(3) True
        by (simp add: spec_cost_shift_def)
    next
      case False
      then show ?thesis
        using shift(3) by (simp add: dynamic_oracle_cost_def)
    qed
  next
    case reduce'
    then show ?thesis
      using cost_reduce[OF assms(1,2) reduce'(2)]
      by (simp add: spec_cost_reduce_def zero_enat_def)
  qed
qed

theorem static_oracle_cost_witness:
  "ids_in_range (init_state 3)
   \<and> gold_fits (init_state 3) example_gold_heads example_gold_labels
   \<and> static_oracle (init_state 3) example_gold_heads example_gold_labels = Inr (Some ''RIGHT-root'')
   \<and> dynamic_oracle_cost (init_state 3) ''RIGHT-root'' example_gold_heads example_gold_labels = Inr 0"
proof -
  have r: "ids_in_range (init_state 3)"
    by (simp add: ids_in_range_def init_state_def)
  have g: "gold_fits (init_state 3) example_gold_heads example_gold_labels"
    by (simp add: gold_fits_def init_state_def example_gold_heads_def example_gold_labels_def)
  have s: "static_oracle (init_state 3) example_gold_heads example_gold_labels
             = Inr (Some ''RIGHT-root'')"
    by code_simp
  show ?thesis
    using r g s static_oracle_cost[OF r g s] by simp
qed

text \<open>
  Claim C1 as stated fails. The gold tree \<open>1 \<leftarrow> ROOT\<close>, \<open>2 \<leftarrow> 3\<close>, \<open>3 \<leftarrow> 1\<close> is
  projective; the static oracle first returns \<open>RIGHT-root\<close>, which is valid and leads to
  \<open>example_state\<close> (stack \<open>[0, 1]\<close>, buffer \<open>[2, 3]\<close>); there it returns SHIFT, whose
  dynamic-oracle cost is 1, since token 3 in the buffer has gold head 1.
\<close>

theorem static_oracle_cost_counterexample:
  "projective_gold example_gold_heads
   \<and> static_oracle (init_state 3) example_gold_heads example_gold_labels = Inr (Some ''RIGHT-root'')
   \<and> run_valid [''SHIFT'', ''REDUCE'', ''LEFT-det'', ''RIGHT-root''] (init_state 3) [''RIGHT-root'']
       = Some (Inr example_state)
   \<and> static_oracle example_state example_gold_heads example_gold_labels = Inr (Some ''SHIFT'')
   \<and> dynamic_oracle_cost example_state ''SHIFT'' example_gold_heads example_gold_labels = Inr 1
   \<and> dynamic_oracle_cost example_state ''SHIFT'' example_gold_heads example_gold_labels \<noteq> Inr 0"
  by code_simp

section \<open>ROOT stays at the bottom of the stack\<close>

lemma parser_inv_init: "parser_inv (init_state n)"
  by (auto simp: parser_inv_def ids_in_range_def init_state_def)

lemma valid_transitions_in_range:
  assumes "ids_in_range st"
  shows "get_valid_transitions st ts =
     Inr ((if buffer st \<noteq> [] then [''SHIFT''] else [])
          @ (if s0 st > 0 \<and> heads st ! nat (s0 st) \<noteq> - 1 then [''REDUCE''] else [])
          @ (if buffer st \<noteq> [] \<and> s0 st > 0 \<and> heads st ! nat (s0 st) = - 1
             then filter (\<lambda>t. startswith t ''LEFT-'') ts else [])
          @ (if buffer st \<noteq> [] then filter (\<lambda>t. startswith t ''RIGHT-'') ts else []))"
  by (simp add: get_valid_transitions_def head_of_s0_in_range[OF assms] Let_def)

lemma stack_top_positive:
  assumes "parser_inv st" "s0 st > 0"
  shows "butlast (stack st) \<noteq> []" "hd (butlast (stack st)) = 0"
    "\<forall>i \<in> set (tl (butlast (stack st))). 1 \<le> i"
    "\<forall>i \<in> set (butlast (stack st)). 0 \<le> i \<and> i \<le> int (n_tokens st)"
    "1 \<le> last (stack st)" "last (stack st) \<le> int (n_tokens st)"
proof -
  obtain rest where st: "stack st = 0 # rest"
    using assms(1) by (cases "stack st") (auto simp: parser_inv_def)
  have "rest \<noteq> []" using assms(2) st by (auto simp: s0_def)
  then show "butlast (stack st) \<noteq> []" "hd (butlast (stack st)) = 0"
    using st by simp_all
  have pos: "\<forall>i \<in> set rest. 1 \<le> i" using assms(1) st by (simp add: parser_inv_def)
  have "set (butlast rest) \<subseteq> set rest" by (meson in_set_butlastD subsetI)
  then show "\<forall>i \<in> set (tl (butlast (stack st))). 1 \<le> i"
    using st \<open>rest \<noteq> []\<close> pos by auto
  have rng: "\<forall>i \<in> set (stack st). 0 \<le> i \<and> i \<le> int (n_tokens st)"
    using assms(1) by (simp add: parser_inv_def ids_in_range_def)
  then show "\<forall>i \<in> set (butlast (stack st)). 0 \<le> i \<and> i \<le> int (n_tokens st)"
    by (meson in_set_butlastD)
  have "last (stack st) = s0 st" using st by (simp add: s0_def)
  then show "1 \<le> last (stack st)" using assms(2) by simp
  have "last (stack st) \<in> set (stack st)" using st by simp
  then show "last (stack st) \<le> int (n_tokens st)" using rng by blast
qed

lemma buffer_front:
  assumes "parser_inv st" "buffer st \<noteq> []"
  shows "1 \<le> hd (buffer st)" "hd (buffer st) \<le> int (n_tokens st)"
    "\<forall>j \<in> set (tl (buffer st)). 1 \<le> j \<and> j \<le> int (n_tokens st)"
proof -
  have rng: "\<forall>j \<in> set (buffer st). 1 \<le> j \<and> j \<le> int (n_tokens st)"
    using assms(1) by (simp add: parser_inv_def ids_in_range_def)
  have "hd (buffer st) \<in> set (buffer st)" using assms(2) by simp
  then show "1 \<le> hd (buffer st)" "hd (buffer st) \<le> int (n_tokens st)"
    using rng by blast+
  show "\<forall>j \<in> set (tl (buffer st)). 1 \<le> j \<and> j \<le> int (n_tokens st)"
    using rng assms(2) by (meson list.set_sel(2))
qed

lemma stack_last_range:
  assumes "parser_inv st"
  shows "0 \<le> last (stack st)" "last (stack st) \<le> int (n_tokens st)"
proof -
  have "last (stack st) \<in> set (stack st)" using assms by (simp add: parser_inv_def)
  then show "0 \<le> last (stack st)" "last (stack st) \<le> int (n_tokens st)"
    using assms by (auto simp: parser_inv_def ids_in_range_def)
qed

lemma apply_shift_inv:
  assumes "parser_inv st" "buffer st \<noteq> []"
  shows "\<exists>st'. apply_transition st ''SHIFT'' = Inr st' \<and> parser_inv st'"
proof -
  obtain rest where st: "stack st = 0 # rest"
    using assms(1) by (cases "stack st") (auto simp: parser_inv_def)
  obtain j js where bf: "buffer st = j # js"
    using assms(2) by (cases "buffer st") auto
  have "parser_inv (st\<lparr>stack := stack st @ [hd (buffer st)], buffer := tl (buffer st)\<rparr>)"
    using assms(1) unfolding parser_inv_def ids_in_range_def st bf by auto
  then show ?thesis using assms(2) by (simp add: apply_transition_def)
qed

lemma apply_reduce_inv:
  assumes "parser_inv st" "s0 st > 0"
  shows "\<exists>st'. apply_transition st ''REDUCE'' = Inr st' \<and> parser_inv st'"
proof -
  have ne: "stack st \<noteq> []" using assms(1) by (simp add: parser_inv_def)
  have "parser_inv (st\<lparr>stack := butlast (stack st)\<rparr>)"
    using assms(1) stack_top_positive[OF assms]
    by (simp add: parser_inv_def ids_in_range_def)
  then show ?thesis using ne by (simp add: apply_transition_def)
qed

lemma set_arc_inv:
  assumes "1 \<le> dep" "dep \<le> int (n_tokens st)" "length (heads st) = n_tokens st + 1"
    "length (labels st) = n_tokens st + 1"
  shows "set_arc st dep head label
         = Inr (st\<lparr>heads := (heads st)[nat dep := head], labels := (labels st)[nat dep := Some label]\<rparr>)"
  using assms by (simp add: set_arc_def py_set_in_range)

lemma note_child_inv:
  assumes "0 \<le> head" "head \<le> int (n_tokens st)"
    "length (left_children st) = n_tokens st + 1" "length (right_children st) = n_tokens st + 1"
    "length (left_dep_count st) = n_tokens st + 1" "length (right_dep_count st) = n_tokens st + 1"
  shows "\<exists>lc rc ldc rdc. note_child st dep head label
           = Inr (st\<lparr>left_children := lc, right_children := rc,
                     left_dep_count := ldc, right_dep_count := rdc\<rparr>)
         \<and> length lc = n_tokens st + 1 \<and> length rc = n_tokens st + 1
         \<and> length ldc = n_tokens st + 1 \<and> length rdc = n_tokens st + 1"
proof (cases "dep < head")
  case True
  have "note_child st dep head label
        = Inr (st\<lparr>left_children := (left_children st)[nat head := Some label],
                  right_children := right_children st,
                  left_dep_count := (left_dep_count st)[nat head := left_dep_count st ! nat head + 1],
                  right_dep_count := right_dep_count st\<rparr>)"
    using True assms by (simp add: note_child_def py_set_in_range py_get_in_range)
  then show ?thesis using assms by (intro exI conjI) (assumption, simp_all)
next
  case False
  have "note_child st dep head label
        = Inr (st\<lparr>left_children := left_children st,
                  right_children := (right_children st)[nat head := Some label],
                  left_dep_count := left_dep_count st,
                  right_dep_count := (right_dep_count st)[nat head := right_dep_count st ! nat head + 1]\<rparr>)"
    using False assms by (simp add: note_child_def py_set_in_range py_get_in_range)
  then show ?thesis using assms by (intro exI conjI) (assumption, simp_all)
qed

lemma left_is_not_shift:
  "startswith t ''LEFT-'' \<Longrightarrow> t \<noteq> ''SHIFT'' \<and> t \<noteq> ''REDUCE''"
  by (auto simp: startswith_def)

lemma right_is_not_left:
  "startswith t ''RIGHT-'' \<Longrightarrow> t \<noteq> ''SHIFT'' \<and> t \<noteq> ''REDUCE'' \<and> \<not> startswith t ''LEFT-''"
  by (cases t) (auto simp: startswith_def)

lemma apply_left_inv:
  assumes "parser_inv st" "buffer st \<noteq> []" "s0 st > 0" "startswith t ''LEFT-''"
  shows "\<exists>st'. apply_transition st t = Inr st' \<and> parser_inv st'"
proof -
  define dep where "dep = last (stack st)"
  define head where "head = hd (buffer st)"
  define label where "label = drop 5 t"
  define st1 where "st1 = st\<lparr>stack := butlast (stack st)\<rparr>"
  define st2 where "st2 = st1\<lparr>heads := (heads st1)[nat dep := head],
                              labels := (labels st1)[nat dep := Some label]\<rparr>"
  note top = stack_top_positive[OF assms(1,3)]
  note front = buffer_front[OF assms(1,2)]
  have inv: "length (heads st) = n_tokens st + 1" "length (labels st) = n_tokens st + 1"
    "length (left_children st) = n_tokens st + 1" "length (right_children st) = n_tokens st + 1"
    "length (left_dep_count st) = n_tokens st + 1" "length (right_dep_count st) = n_tokens st + 1"
    "heads st ! 0 = - 1" "labels st ! 0 = None" "stack st \<noteq> []"
    "\<forall>j \<in> set (buffer st). 1 \<le> j \<and> j \<le> int (n_tokens st)"
    using assms(1) by (simp_all add: parser_inv_def ids_in_range_def)
  have dep: "1 \<le> dep" "dep \<le> int (n_tokens st)" using top(5,6) by (simp_all add: dep_def)
  have a: "set_arc st1 dep head label = Inr st2"
    unfolding st2_def using dep inv(1,2) by (intro set_arc_inv) (simp_all add: st1_def)
  obtain lc rc ldc rdc where
    n: "note_child st2 dep head label
          = Inr (st2\<lparr>left_children := lc, right_children := rc,
                     left_dep_count := ldc, right_dep_count := rdc\<rparr>)"
    and l: "length lc = n_tokens st + 1" "length rc = n_tokens st + 1"
      "length ldc = n_tokens st + 1" "length rdc = n_tokens st + 1"
    using note_child_inv[of head st2 dep label] front(1,2) inv(3-6)
    by (auto simp: st2_def st1_def head_def)
  let ?st' = "st2\<lparr>left_children := lc, right_children := rc,
                    left_dep_count := ldc, right_dep_count := rdc\<rparr>"
  have "nat dep \<noteq> 0" using dep(1) by simp
  then have "parser_inv ?st'"
    using top(1-4) inv l
    by (simp add: parser_inv_def ids_in_range_def st2_def st1_def)
  moreover have "buffer st1 \<noteq> []" "hd (buffer st1) = head"
    using assms(2) by (simp_all add: st1_def head_def)
  moreover from this have "apply_transition st t = Inr ?st'"
    using left_is_not_shift[OF assms(4)] assms(4) inv(9) a n
    by (simp add: apply_transition_def Let_def dep_def[symmetric]
        label_def[symmetric] st1_def[symmetric])
  ultimately show ?thesis by blast
qed

lemma apply_right_inv:
  assumes "parser_inv st" "buffer st \<noteq> []" "startswith t ''RIGHT-''"
  shows "\<exists>st'. apply_transition st t = Inr st' \<and> parser_inv st'"
proof -
  define dep where "dep = hd (buffer st)"
  define head where "head = last (stack st)"
  define label where "label = drop 6 t"
  define st1 where "st1 = st\<lparr>buffer := tl (buffer st)\<rparr>"
  define st2 where "st2 = st1\<lparr>heads := (heads st1)[nat dep := head],
                              labels := (labels st1)[nat dep := Some label]\<rparr>"
  define st3 where "st3 = st2\<lparr>stack := stack st2 @ [dep]\<rparr>"
  note front = buffer_front[OF assms(1,2)]
  note top = stack_last_range[OF assms(1)]
  have inv: "length (heads st) = n_tokens st + 1" "length (labels st) = n_tokens st + 1"
    "length (left_children st) = n_tokens st + 1" "length (right_children st) = n_tokens st + 1"
    "length (left_dep_count st) = n_tokens st + 1" "length (right_dep_count st) = n_tokens st + 1"
    "heads st ! 0 = - 1" "labels st ! 0 = None" "stack st \<noteq> []" "hd (stack st) = 0"
    "\<forall>i \<in> set (tl (stack st)). 1 \<le> i"
    "\<forall>i \<in> set (stack st). 0 \<le> i \<and> i \<le> int (n_tokens st)"
    using assms(1) by (simp_all add: parser_inv_def ids_in_range_def)
  have dep: "1 \<le> dep" "dep \<le> int (n_tokens st)" using front(1,2) by (simp_all add: dep_def)
  have a: "set_arc st1 dep head label = Inr st2"
    unfolding st2_def using dep inv(1,2) by (intro set_arc_inv) (simp_all add: st1_def)
  obtain lc rc ldc rdc where
    n: "note_child st3 dep head label
          = Inr (st3\<lparr>left_children := lc, right_children := rc,
                     left_dep_count := ldc, right_dep_count := rdc\<rparr>)"
    and l: "length lc = n_tokens st + 1" "length rc = n_tokens st + 1"
      "length ldc = n_tokens st + 1" "length rdc = n_tokens st + 1"
    using note_child_inv[of head st3 dep label] top inv(3-6)
    by (auto simp: st3_def st2_def st1_def head_def)
  let ?st' = "st3\<lparr>left_children := lc, right_children := rc,
                    left_dep_count := ldc, right_dep_count := rdc\<rparr>"
  have "nat dep \<noteq> 0" "0 \<le> dep" using dep(1) by simp_all
  then have "parser_inv ?st'"
    using front(3) dep inv l
    by (cases "stack st") (simp_all add: parser_inv_def ids_in_range_def st3_def st2_def st1_def)
  moreover have "stack st1 \<noteq> []" "last (stack st1) = head"
    using inv(9) by (simp_all add: st1_def head_def)
  moreover from this have "apply_transition st t = Inr ?st'"
    using right_is_not_left[OF assms(3)] assms(2,3) a n
    by (simp add: apply_transition_def Let_def dep_def[symmetric]
        label_def[symmetric] st1_def[symmetric] st3_def[symmetric])
  ultimately show ?thesis by blast
qed

lemma apply_valid_inv:
  assumes "parser_inv st" "get_valid_transitions st ts = Inr valid" "t \<in> set valid"
  shows "\<exists>st'. apply_transition st t = Inr st' \<and> parser_inv st'"
proof -
  have r: "ids_in_range st" using assms(1) by (simp add: parser_inv_def)
  have "t \<in> set ((if buffer st \<noteq> [] then [''SHIFT''] else [])
          @ (if s0 st > 0 \<and> heads st ! nat (s0 st) \<noteq> - 1 then [''REDUCE''] else [])
          @ (if buffer st \<noteq> [] \<and> s0 st > 0 \<and> heads st ! nat (s0 st) = - 1
             then filter (\<lambda>t. startswith t ''LEFT-'') ts else [])
          @ (if buffer st \<noteq> [] then filter (\<lambda>t. startswith t ''RIGHT-'') ts else []))"
    using assms(2,3) unfolding valid_transitions_in_range[OF r] by simp
  then consider "t = ''SHIFT''" "buffer st \<noteq> []"
    | "t = ''REDUCE''" "s0 st > 0"
    | "startswith t ''LEFT-''" "buffer st \<noteq> []" "s0 st > 0"
    | "startswith t ''RIGHT-''" "buffer st \<noteq> []"
    by (auto split: if_splits)
  then show ?thesis
  proof cases
    case 1 then show ?thesis using apply_shift_inv[OF assms(1)] by simp
  next
    case 2 then show ?thesis using apply_reduce_inv[OF assms(1)] by simp
  next
    case 3 then show ?thesis using apply_left_inv[OF assms(1)] by simp
  next
    case 4 then show ?thesis using apply_right_inv[OF assms(1)] by simp
  qed
qed

lemma run_valid_inv:
  assumes "parser_inv st" "run_valid ts st seq = Some r"
  shows "\<exists>st'. r = Inr st' \<and> parser_inv st'"
  using assms
proof (induction seq arbitrary: st)
  case Nil
  then show ?case by auto
next
  case (Cons t seq)
  have r: "ids_in_range st" using Cons.prems(1) by (simp add: parser_inv_def)
  obtain valid where v: "get_valid_transitions st ts = Inr valid"
    using valid_transitions_in_range[OF r] by blast
  have mem: "t \<in> set valid" using Cons.prems(2) v by (auto split: if_splits)
  obtain st1 where s: "apply_transition st t = Inr st1" "parser_inv st1"
    using apply_valid_inv[OF Cons.prems(1) v mem] by blast
  have "run_valid ts st1 seq = Some r" using Cons.prems(2) v mem s(1) by simp
  then show ?case using Cons.IH[OF s(2)] by blast
qed

lemma run_valid_append:
  "run_valid ts st (seq @ rest) =
     (case run_valid ts st seq of
        None \<Rightarrow> None
      | Some (Inl e) \<Rightarrow> Some (Inl e)
      | Some (Inr st') \<Rightarrow> run_valid ts st' rest)"
  by (induction seq arbitrary: st) (auto split: sum.splits option.splits)

text \<open>
  Claim C9. Take any run from the initial configuration in which every applied transition
  is listed by \<open>get_valid_transitions\<close> at the configuration where it is applied
  (\<open>run_valid\<close> of the whole sequence \<open>seq @ rest\<close> is not \<open>None\<close>). Then after every
  prefix \<open>seq\<close> of the run the code has not raised, the stack is non-empty with token 0 at
  its bottom, and \<open>heads[0]\<close> and \<open>labels[0]\<close> are still \<open>-1\<close> and \<open>None\<close>.
\<close>

theorem root_never_popped:
  assumes "run_valid transition_set (init_state n) (seq @ rest) \<noteq> None"
  shows "\<exists>st. run_valid transition_set (init_state n) seq = Some (Inr st)
              \<and> stack st \<noteq> [] \<and> py_get (stack st) 0 = Inr 0
              \<and> py_get (heads st) 0 = Inr (- 1) \<and> py_get (labels st) 0 = Inr None"
proof -
  obtain r where r: "run_valid transition_set (init_state n) seq = Some r"
    using assms unfolding run_valid_append by (auto split: option.splits)
  obtain st where st: "r = Inr st" "parser_inv st"
    using run_valid_inv[OF parser_inv_init r] by blast
  have "stack st \<noteq> []" "hd (stack st) = 0" "heads st ! 0 = - 1" "labels st ! 0 = None"
    "length (heads st) = n_tokens st + 1" "length (labels st) = n_tokens st + 1"
    using st(2) by (simp_all add: parser_inv_def ids_in_range_def)
  then have "stack st \<noteq> [] \<and> py_get (stack st) 0 = Inr 0
              \<and> py_get (heads st) 0 = Inr (- 1) \<and> py_get (labels st) 0 = Inr None"
    by (cases "stack st") (simp_all add: py_get_def py_index_def)
  then show ?thesis using r st(1) by blast
qed

theorem root_never_popped_witness:
  "run_valid [''SHIFT'', ''REDUCE'', ''LEFT-det'', ''RIGHT-root'', ''RIGHT-obj'']
      (init_state 3) ([''RIGHT-root'', ''SHIFT''] @ [''LEFT-det'', ''RIGHT-obj'', ''REDUCE'']) \<noteq> None
   \<and> (\<exists>st. run_valid [''SHIFT'', ''REDUCE'', ''LEFT-det'', ''RIGHT-root'', ''RIGHT-obj'']
             (init_state 3) [''RIGHT-root'', ''SHIFT''] = Some (Inr st)
           \<and> stack st = [0, 1, 2] \<and> py_get (heads st) 0 = Inr (- 1)
           \<and> py_get (labels st) 0 = Inr None)"
proof -
  have h: "run_valid [''SHIFT'', ''REDUCE'', ''LEFT-det'', ''RIGHT-root'', ''RIGHT-obj'']
      (init_state 3) ([''RIGHT-root'', ''SHIFT''] @ [''LEFT-det'', ''RIGHT-obj'', ''REDUCE'']) \<noteq> None"
    by code_simp
  have s: "map_option (map_sum id stack)
             (run_valid [''SHIFT'', ''REDUCE'', ''LEFT-det'', ''RIGHT-root'', ''RIGHT-obj'']
               (init_state 3) [''RIGHT-root'', ''SHIFT'']) = Some (Inr [0, 1, 2])"
    by code_simp
  show ?thesis
    using h s root_never_popped[OF h] by auto
qed

section \<open>The two CoNLL-U readers differ\<close>

text \<open>
  Claim C10. The two readers are not equivalent on the columns they share. For a file of
  one token line that is not blank, is not a comment, has an id without \<open>-\<close> or \<open>.\<close>
  and has at least 5 but fewer than 10 tab-separated fields, the POS script's
  \<open>parse_conllu\<close> returns one sentence holding that token's form and XPOS, and the
  parser script's \<open>parse_conllu\<close> returns no sentence at all.
\<close>

theorem conllu_readers_differ:
  assumes "strip raw \<noteq> []" and "\<not> startswith (strip raw) ''#''"
    and "5 \<le> length (split_at tab (strip raw))"
    and "length (split_at tab (strip raw)) < 10"
    and "CHR ''-'' \<notin> set (split_at tab (strip raw) ! 0)"
    and "CHR ''.'' \<notin> set (split_at tab (strip raw) ! 0)"
  shows "pos_parse_conllu [raw]
           = [[(split_at tab (strip raw) ! 1, split_at tab (strip raw) ! 4)]]
         \<and> dep_parse_conllu [raw] = Inr []"
proof -
  have "pos_conllu_line ([], []) raw
          = ([], [(split_at tab (strip raw) ! 1, split_at tab (strip raw) ! 4)])"
    using assms by (simp add: pos_conllu_line_def Let_def)
  then have p: "pos_parse_conllu [raw]
          = [[(split_at tab (strip raw) ! 1, split_at tab (strip raw) ! 4)]]"
    by (simp add: pos_parse_conllu_def)
  have "dep_conllu_line ([], []) raw = Inr ([], [])"
    using assms by (simp add: dep_conllu_line_def Let_def)
  then have "dep_parse_conllu [raw] = Inr []"
    by (simp add: dep_parse_conllu_def)
  with p show ?thesis by simp
qed

lemma seven_field_parts:
  "split_at tab (strip seven_field_line) = [''1'', ''dog'', ''dog'', ''NOUN'', ''NN'', ''_'', ''0'']"
  by code_simp

theorem conllu_readers_differ_witness:
  "pos_parse_conllu [seven_field_line] = [[(''dog'', ''NN'')]]
   \<and> dep_parse_conllu [seven_field_line] = Inr []"
proof -
  have ne: "strip seven_field_line \<noteq> []" by code_simp
  have nc: "\<not> startswith (strip seven_field_line) ''#''" by code_simp
  show ?thesis
    using conllu_readers_differ[OF ne nc, unfolded seven_field_parts]
    by simp
qed

text \<open>On a line with all ten fields both readers keep the token.\<close>

lemma conllu_readers_ten_fields:
  "pos_parse_conllu [ten_field_line] = [[(''dog'', ''NN'')]]
   \<and> dep_parse_conllu [ten_field_line] = Inr [[(1, ''dog'', ''NN'', 0, ''root'')]]"
  by code_simp

section \<open>The tag dictionary: counting\<close>

lemma sum_dict_update:
  "sum_list (map snd (dict_update t 0 Suc row)) = Suc (sum_list (map snd row))"
  by (induction t "0::nat" Suc row rule: dict_update.induct) auto

lemma count_tags_flat: "count_tags sentences = foldl count_step [] (concat sentences)"
proof -
  have "foldl (\<lambda>wtc sent. foldl count_step wtc sent) m ss = foldl count_step m (concat ss)"
    for m ss
    by (induction ss arbitrary: m) simp_all
  moreover have "(\<lambda>wtc (form, xpos). dict_update form [] (dict_update xpos 0 (\<lambda>c. c + 1)) wtc)
                 = count_step"
    by (auto simp: fun_eq_iff count_step_def)
  ultimately show ?thesis by (simp add: count_tags_def)
qed

lemma row_of_count_step:
  "row_of (count_step m tok) w =
     (if w = fst tok then dict_update (snd tok) 0 (\<lambda>c. c + 1) (row_of m w) else row_of m w)"
  by (simp add: row_of_def count_step_def map_of_dict_update split: option.splits)

lemma count_in_dict_update:
  "count_in (dict_update t0 0 Suc row) t = (if t = t0 then Suc (count_in row t) else count_in row t)"
  by (simp add: count_in_def map_of_dict_update split: option.splits)

lemma rows_distinct_step:
  assumes "\<forall>w. distinct (map fst (row_of m w))"
  shows "\<forall>w. distinct (map fst (row_of (count_step m tok) w))"
  using assms by (simp add: row_of_count_step distinct_dict_update)

lemma fold_count_step:
  assumes "distinct (map fst m)" and "\<forall>w. distinct (map fst (row_of m w))"
  shows "distinct (map fst (foldl count_step m toks))
       \<and> (\<forall>w. distinct (map fst (row_of (foldl count_step m toks) w)))
       \<and> (\<forall>w. sum_list (map snd (row_of (foldl count_step m toks) w))
                = sum_list (map snd (row_of m w)) + length (filter (\<lambda>tok. fst tok = w) toks))
       \<and> (\<forall>w t. count_in (row_of (foldl count_step m toks) w) t
                = count_in (row_of m w) t + length (filter (\<lambda>tok. tok = (w, t)) toks))"
  using assms
proof (induction toks arbitrary: m)
  case Nil
  then show ?case by simp
next
  case (Cons tok toks)
  have d: "distinct (map fst (count_step m tok))"
    using Cons.prems(1) by (simp add: count_step_def distinct_dict_update)
  note r = rows_distinct_step[OF Cons.prems(2), of tok]
  note ih = Cons.IH[OF d r]
  have s: "sum_list (map snd (row_of (count_step m tok) w))
            = sum_list (map snd (row_of m w)) + (if fst tok = w then 1 else 0)" for w
    by (auto simp: row_of_count_step sum_dict_update)
  have c: "count_in (row_of (count_step m tok) w) t
            = count_in (row_of m w) t + (if tok = (w, t) then 1 else 0)" for w t
    by (cases tok) (auto simp: row_of_count_step count_in_dict_update)
  show ?case
    using ih by (simp add: s c)
qed

lemma count_tags_facts:
  "distinct (map fst (count_tags sentences))"
  "distinct (map fst (row_of (count_tags sentences) w))"
  "sum_list (map snd (row_of (count_tags sentences) w)) = occurrences sentences w"
  "count_in (row_of (count_tags sentences) w) t = occurrences_with sentences w t"
  using fold_count_step[of "[]" "concat sentences"]
  by (simp_all add: count_tags_flat row_of_def count_in_def occurrences_def occurrences_with_def)

section \<open>The tag dictionary: the threshold\<close>

lemma max_by_count_max:
  "max_by_count best row \<in> set (best # row)
   \<and> (\<forall>kv \<in> set (best # row). snd kv \<le> snd (max_by_count best row))"
proof (induction row arbitrary: best)
  case Nil
  show ?case by simp
next
  case (Cons kv row)
  show ?case
    using Cons.IH[of "if snd kv > snd best then kv else best"]
    by (auto split: if_splits)
qed

lemma count_in_entry:
  "distinct (map fst row) \<Longrightarrow> (t, c) \<in> set row \<Longrightarrow> count_in row t = c"
  by (simp add: count_in_def)

lemma count_in_le_entry:
  assumes "\<forall>kv \<in> set row. snd kv \<le> m"
  shows "count_in row t \<le> m"
proof (cases "map_of row t")
  case None
  then show ?thesis by (simp add: count_in_def)
next
  case (Some c)
  then have "(t, c) \<in> set row" by (rule map_of_SomeD)
  then show ?thesis using assms Some by (auto simp: count_in_def)
qed

lemma best_tag_of_max:
  assumes "distinct (map fst row)" "row \<noteq> []"
  shows "\<exists>b. best_tag_of row = Inr b \<and> (\<forall>t. count_in row t \<le> count_in row b)"
proof -
  obtain kv r where row: "row = kv # r" using assms(2) by (cases row) auto
  define m where "m = max_by_count kv r"
  have m: "m \<in> set row" "\<forall>kv \<in> set row. snd kv \<le> snd m"
    using max_by_count_max[of kv r] by (simp_all add: m_def row)
  have "count_in row (fst m) = snd m"
    using count_in_entry[OF assms(1), of "fst m" "snd m"] m(1) by simp
  then have "\<forall>t. count_in row t \<le> count_in row (fst m)"
    using count_in_le_entry[OF m(2)] by simp
  moreover have "best_tag_of row = Inr (fst m)" by (simp add: best_tag_of_def row m_def)
  ultimately show ?thesis by blast
qed

lemma tagdict_entry_value:
  assumes "0 < freq" "distinct (map fst row)"
  shows "\<exists>b. (\<forall>t. count_in row t \<le> count_in row b)
           \<and> tagdict_entry freq agree td (w, row)
               = Inr (if freq \<le> sum_list (map snd row)
                         \<and> agree \<le> of_nat (count_in row b) / of_nat (sum_list (map snd row))
                      then td(w \<mapsto> b) else td)"
proof (cases "sum_list (map snd row) < freq")
  case True
  have "\<exists>b. \<forall>t. count_in row t \<le> count_in row b"
  proof (cases "row = []")
    case True
    then show ?thesis by (simp add: count_in_def)
  next
    case False
    then show ?thesis using best_tag_of_max[OF assms(2)] by blast
  qed
  then show ?thesis using True by (auto simp: tagdict_entry_def)
next
  case False
  then have nz: "sum_list (map snd row) \<noteq> 0" using assms(1) by linarith
  have ne: "row \<noteq> []"
  proof
    assume "row = []"
    then show False using nz by simp
  qed
  obtain b where b: "best_tag_of row = Inr b" "\<forall>t. count_in row t \<le> count_in row b"
    using best_tag_of_max[OF assms(2) ne] by blast
  have "tagdict_entry freq agree td (w, row)
               = Inr (if freq \<le> sum_list (map snd row)
                         \<and> agree \<le> of_nat (count_in row b) / of_nat (sum_list (map snd row))
                      then td(w \<mapsto> b) else td)"
    using False nz b(1)
    by (simp add: tagdict_entry_def count_in_def Let_def)
  then show ?thesis using b(2) by blast
qed

lemma tagdict_loop_value:
  assumes "0 < freq" "distinct (map fst items)" "\<forall>row \<in> snd ` set items. distinct (map fst row)"
  shows "\<exists>res. tagdict_loop freq agree td items = Inr res
           \<and> (\<forall>w. map_of items w = None \<longrightarrow> res w = td w)
           \<and> (\<forall>w row. map_of items w = Some row \<longrightarrow>
                 (\<exists>b. (\<forall>t. count_in row t \<le> count_in row b)
                    \<and> res w = (if freq \<le> sum_list (map snd row)
                                   \<and> agree \<le> of_nat (count_in row b) / of_nat (sum_list (map snd row))
                                then Some b else td w)))"
  using assms(2,3)
proof (induction items arbitrary: td)
  case Nil
  show ?case by simp
next
  case (Cons item items)
  obtain w0 row0 where item: "item = (w0, row0)" by (cases item)
  have d0: "distinct (map fst row0)" using Cons.prems(2) item by simp
  have fresh: "map_of items w0 = None"
    using Cons.prems(1) item by (simp add: map_of_eq_None_iff)
  obtain b0 where b0: "\<forall>t. count_in row0 t \<le> count_in row0 b0"
    and e: "tagdict_entry freq agree td (w0, row0)
               = Inr (if freq \<le> sum_list (map snd row0)
                         \<and> agree \<le> of_nat (count_in row0 b0) / of_nat (sum_list (map snd row0))
                      then td(w0 \<mapsto> b0) else td)"
    using tagdict_entry_value[OF assms(1) d0, of agree td w0] by blast
  define td' where "td' = (if freq \<le> sum_list (map snd row0)
                         \<and> agree \<le> of_nat (count_in row0 b0) / of_nat (sum_list (map snd row0))
                      then td(w0 \<mapsto> b0) else td)"
  have rest: "distinct (map fst items)" "\<forall>row \<in> snd ` set items. distinct (map fst row)"
    using Cons.prems by simp_all
  obtain res where res: "tagdict_loop freq agree td' items = Inr res"
    and none: "\<forall>w. map_of items w = None \<longrightarrow> res w = td' w"
    and some: "\<forall>w row. map_of items w = Some row \<longrightarrow>
                 (\<exists>b. (\<forall>t. count_in row t \<le> count_in row b)
                    \<and> res w = (if freq \<le> sum_list (map snd row)
                                   \<and> agree \<le> of_nat (count_in row b) / of_nat (sum_list (map snd row))
                                then Some b else td' w))"
    using Cons.IH[OF rest, of td'] by blast
  have run: "tagdict_loop freq agree td (item # items) = Inr res"
    using e res by (simp add: item td'_def)
  have other: "td' w = td w" if "w \<noteq> w0" for w
    using that by (simp add: td'_def)
  have "res w = td w" if "map_of (item # items) w = None" for w
    using that none other[of w] by (auto simp: item split: if_splits)
  moreover have "\<exists>b. (\<forall>t. count_in row t \<le> count_in row b)
                    \<and> res w = (if freq \<le> sum_list (map snd row)
                                   \<and> agree \<le> of_nat (count_in row b) / of_nat (sum_list (map snd row))
                                then Some b else td w)"
    if "map_of (item # items) w = Some row" for w row
  proof (cases "w = w0")
    case True
    then have "row = row0" using that item by simp
    moreover have "res w0 = td' w0" using none fresh by simp
    ultimately show ?thesis using True b0 by (auto simp: td'_def intro!: exI[of _ b0])
  next
    case False
    then have "map_of items w = Some row" using that item by simp
    then obtain b where "\<forall>t. count_in row t \<le> count_in row b"
      "res w = (if freq \<le> sum_list (map snd row)
                   \<and> agree \<le> of_nat (count_in row b) / of_nat (sum_list (map snd row))
                then Some b else td' w)"
      using some by blast
    then show ?thesis using other[OF False] by (intro exI[of _ b]) simp
  qed
  ultimately show ?case using run by blast
qed

lemma filter_two_le:
  assumes "t \<noteq> t'"
  shows "length (filter (\<lambda>tok. tok = (w, t)) toks) + length (filter (\<lambda>tok. tok = (w, t')) toks)
         \<le> length (filter (\<lambda>tok. fst tok = w) toks)"
  using assms by (induction toks) auto

lemma occurrences_two_le:
  "t \<noteq> t' \<Longrightarrow> occurrences_with s w t + occurrences_with s w t' \<le> occurrences s w"
  by (simp add: occurrences_def occurrences_with_def filter_two_le)

lemma occurrences_with_le: "occurrences_with s w t \<le> occurrences s w"
proof -
  have "length (filter (\<lambda>tok. tok = (w, t)) toks) \<le> length (filter (\<lambda>tok. fst tok = w) toks)"
    for toks :: "(string \<times> string) list"
    by (induction toks) auto
  then show ?thesis by (simp add: occurrences_def occurrences_with_def)
qed

lemma agreement_as_nat:
  "0 < n \<Longrightarrow> ((97 / 100 :: rat) \<le> of_nat c / of_nat n) = (97 * n \<le> 100 * c)"
proof -
  assume n: "0 < n"
  have "((97 / 100 :: rat) \<le> of_nat c / of_nat n) = ((97::rat) * of_nat n \<le> 100 * of_nat c)"
    using n by (simp add: field_simps)
  also have "\<dots> = ((of_nat (97 * n) :: rat) \<le> of_nat (100 * c))" by simp
  also have "\<dots> = (97 * n \<le> 100 * c)" by (rule of_nat_le_iff)
  finally show ?thesis .
qed

text \<open>
  Claim C4, as the code has it. With the default thresholds \<open>build_tagdict\<close> does not
  raise, and it maps a word to a tag exactly when the word occurs at least 5 times and that
  tag accounts for at least 97 percent of its occurrences (such a tag is the word's most
  frequent one). In particular ten copies of \<open>the/DT\<close> and one \<open>the/IN\<close> leave
  \<open>the\<close> out of the dictionary, since 10/11 is below 0.97; thirty-three copies of
  \<open>the/DT\<close> and one \<open>the/IN\<close> put it in.
\<close>

theorem build_tagdict_threshold:
  "\<exists>tagdict. build_tagdict sentences 5 (97 / 100) = Inr tagdict
      \<and> (\<forall>w t. (tagdict w = Some t)
                = (5 \<le> occurrences sentences w
                   \<and> 97 * occurrences sentences w \<le> 100 * occurrences_with sentences w t))"
proof -
  let ?items = "count_tags sentences"
  have d: "distinct (map fst ?items)" by (rule count_tags_facts(1))
  have rows: "\<forall>row \<in> snd ` set ?items. distinct (map fst row)"
  proof
    fix row assume "row \<in> snd ` set ?items"
    then obtain w where "(w, row) \<in> set ?items" by auto
    then have "map_of ?items w = Some row" using d by simp
    then have "row_of ?items w = row" by (simp add: row_of_def)
    then show "distinct (map fst row)" using count_tags_facts(2)[of sentences w] by simp
  qed
  have five: "0 < (5::nat)" by simp
  obtain res where run: "tagdict_loop 5 (97 / 100) Map.empty ?items = Inr res"
    and none: "\<forall>w. map_of ?items w = None \<longrightarrow> res w = None"
    and some: "\<forall>w row. map_of ?items w = Some row \<longrightarrow>
                 (\<exists>b. (\<forall>t. count_in row t \<le> count_in row b)
                    \<and> res w = (if 5 \<le> sum_list (map snd row)
                                   \<and> (97 / 100 :: rat)
                                       \<le> of_nat (count_in row b) / of_nat (sum_list (map snd row))
                                then Some b else None))"
    using tagdict_loop_value[OF five d rows, of "97 / 100" Map.empty] by blast
  have "(res w = Some t)
          = (5 \<le> occurrences sentences w
             \<and> 97 * occurrences sentences w \<le> 100 * occurrences_with sentences w t)" for w t
  proof (cases "map_of ?items w")
    case None
    then have "row_of ?items w = []" by (simp add: row_of_def)
    then have "occurrences sentences w = 0"
      using count_tags_facts(3)[of sentences w] by simp
    then show ?thesis using none None by simp
  next
    case (Some row)
    then have row: "row_of ?items w = row" by (simp add: row_of_def)
    have total: "sum_list (map snd row) = occurrences sentences w"
      using count_tags_facts(3)[of sentences w] row by simp
    have cnt: "count_in row u = occurrences_with sentences w u" for u
      using count_tags_facts(4)[of sentences w u] row by simp
    obtain b where b: "\<forall>u. occurrences_with sentences w u \<le> occurrences_with sentences w b"
      and r: "res w = (if 5 \<le> occurrences sentences w
                          \<and> 97 / 100 \<le> (of_nat (occurrences_with sentences w b) :: rat)
                                        / of_nat (occurrences sentences w)
                       then Some b else None)"
      using some[rule_format, OF Some] unfolding total cnt by blast
    show ?thesis
    proof (cases "5 \<le> occurrences sentences w")
      case False
      then show ?thesis using r by simp
    next
      case True
      then have pos: "0 < occurrences sentences w" by simp
      have r': "res w = (if 97 * occurrences sentences w \<le> 100 * occurrences_with sentences w b
                         then Some b else None)"
        using r True unfolding agreement_as_nat[OF pos] by (simp only: simp_thms if_True)
      show ?thesis
      proof (cases "t = b")
        case True
        then show ?thesis using r' \<open>5 \<le> occurrences sentences w\<close> by simp
      next
        case False
        have two: "occurrences_with sentences w t + occurrences_with sentences w b
                   \<le> occurrences sentences w"
          by (rule occurrences_two_le[OF False])
        have "\<not> 97 * occurrences sentences w \<le> 100 * occurrences_with sentences w t"
        proof
          assume a: "97 * occurrences sentences w \<le> 100 * occurrences_with sentences w t"
          have "occurrences_with sentences w t \<le> occurrences_with sentences w b" using b by blast
          then show False using a two pos by linarith
        qed
        moreover have "res w \<noteq> Some t" using r' False by (auto split: if_splits)
        ultimately show ?thesis by simp
      qed
    qed
  qed
  then show ?thesis using run by (auto simp: build_tagdict_def)
qed

theorem build_tagdict_threshold_witness:
  "\<exists>tagdict. build_tagdict [replicate 33 (''the'', ''DT'') @ [(''the'', ''IN'')]] 5 (97 / 100)
               = Inr tagdict
      \<and> tagdict ''the'' = Some ''DT''"
proof -
  have o: "occurrences [replicate 33 (''the'', ''DT'') @ [(''the'', ''IN'')]] ''the'' = 34"
    by code_simp
  have w: "occurrences_with [replicate 33 (''the'', ''DT'') @ [(''the'', ''IN'')]] ''the'' ''DT'' = 33"
    by code_simp
  obtain tagdict where
    b: "build_tagdict [replicate 33 (''the'', ''DT'') @ [(''the'', ''IN'')]] 5 (97 / 100) = Inr tagdict"
    and t: "\<forall>w t. (tagdict w = Some t)
                = (5 \<le> occurrences [replicate 33 (''the'', ''DT'') @ [(''the'', ''IN'')]] w
                   \<and> 97 * occurrences [replicate 33 (''the'', ''DT'') @ [(''the'', ''IN'')]] w
                      \<le> 100 * occurrences_with [replicate 33 (''the'', ''DT'') @ [(''the'', ''IN'')]] w t)"
    using build_tagdict_threshold[of "[replicate 33 (''the'', ''DT'') @ [(''the'', ''IN'')]]"]
    by blast
  have "tagdict ''the'' = Some ''DT''"
    using t[rule_format, of "''the''" "''DT''"] unfolding o w by simp
  then show ?thesis using b by blast
qed

text \<open>
  Claim C4 as stated fails in its example: ten copies of \<open>the/DT\<close> and one of
  \<open>the/IN\<close> give a dictionary without \<open>the\<close>.
\<close>

theorem build_tagdict_counterexample:
  "map_sum id (\<lambda>tagdict. tagdict ''the'')
     (build_tagdict [replicate 10 (''the'', ''DT'') @ [(''the'', ''IN'')]] 5 (97 / 100))
   = Inr None"
  by code_simp

section \<open>Nested dicts\<close>

lemma cell_cell_update:
  "cell (cell_update f c dflt g d) f' c'
     = (if f' = f \<and> c' = c then Some (g (cell_or dflt d f c)) else cell d f' c')"
proof (cases "f' = f")
  case False
  then show ?thesis
    by (simp add: cell_def cell_update_def map_of_dict_update)
next
  case True
  define row where "row = (case map_of d f of None \<Rightarrow> [] | Some r \<Rightarrow> r)"
  have r: "map_of row c'' = cell d f c''" for c''
    by (simp add: row_def cell_def split: option.splits)
  have "cell (cell_update f c dflt g d) f c' = map_of (dict_update c dflt g row) c'"
    by (simp add: cell_def cell_update_def map_of_dict_update row_def)
  also have "\<dots> = (if c' = c then Some (g (cell_or dflt d f c)) else cell d f c')"
    by (simp add: map_of_dict_update r cell_or_def)
  finally show ?thesis using True by simp
qed

lemma cell_or_cell_update:
  "cell_or x (cell_update f c dflt g d) f' c'
     = (if f' = f \<and> c' = c then g (cell_or dflt d f c) else cell_or x d f' c')"
  by (simp add: cell_or_def[of x] cell_cell_update)

lemma rows_dict_update:
  assumes "\<forall>row \<in> snd ` set d. Q row" and "Q (h dflt)" and "\<And>row. Q row \<Longrightarrow> Q (h row)"
  shows "\<forall>row \<in> snd ` set (dict_update f dflt h d). Q row"
  using assms(1)
proof (induction d)
  case Nil
  show ?case using assms(2) by simp
next
  case (Cons kv d)
  obtain k v where kv: "kv = (k, v)" by (cases kv)
  have v: "Q v" and rest: "\<forall>row \<in> snd ` set d. Q row"
    using Cons.prems kv by simp_all
  show ?case
  proof (cases "k = f")
    case True
    then show ?thesis using kv rest assms(3)[OF v] by simp
  next
    case False
    then show ?thesis using kv v Cons.IH[OF rest] by simp
  qed
qed

lemma dict_ok_cell_update: "dict_ok d \<Longrightarrow> dict_ok (cell_update f c dflt g d)"
proof -
  assume ok: "dict_ok d"
  have "\<forall>row \<in> snd ` set (dict_update f [] (dict_update c dflt g) d). distinct (map fst row)"
    using ok by (intro rows_dict_update) (simp_all add: dict_ok_def distinct_dict_update)
  then show ?thesis
    using ok by (simp add: dict_ok_def cell_update_def distinct_dict_update)
qed

lemma map_of_filter_map:
  assumes "distinct (map fst xs)"
  shows "map_of (filter (\<lambda>kv. P (snd kv)) (map (\<lambda>kv. (fst kv, h (fst kv) (snd kv))) xs)) k
         = (case map_of xs k of None \<Rightarrow> None
            | Some v \<Rightarrow> if P (h k v) then Some (h k v) else None)"
  using assms
proof (induction xs)
  case Nil
  show ?case by simp
next
  case (Cons kv xs)
  obtain k' v' where kv: "kv = (k', v')" by (cases kv)
  have fresh: "map_of xs k' = None"
    using Cons.prems kv by (simp add: map_of_eq_None_iff)
  show ?case
    using Cons kv fresh by (auto split: option.splits)
qed

section \<open>The averaged perceptron: one update\<close>

lemma accumulate_fields:
  "step (accumulate fl m f c) = step m"
  "classes (accumulate fl m f c) = classes m"
  by (simp_all add: accumulate_def Let_def)

lemma accumulate_totals:
  "cell (totals (accumulate fl m f c)) f' c'
     = (if f' = f \<and> c' = c
        then Some (cell_or 0 (totals m) f c
                   + fl (step m - cell_or 0 (tstamps m) f c) * cell_or 0 (weights m) f c)
        else cell (totals m) f' c')"
  by (simp add: accumulate_def Let_def cell_cell_update)

lemma accumulate_tstamps:
  "cell (tstamps (accumulate fl m f c)) f' c'
     = (if f' = f \<and> c' = c then Some (step m) else cell (tstamps m) f' c')"
  by (simp add: accumulate_def Let_def cell_cell_update)

lemma accumulate_weights:
  "cell (weights (accumulate fl m f c)) f' c'
     = (if f' = f \<and> c' = c then Some (cell_or 0 (weights m) f c) else cell (weights m) f' c')"
  by (simp add: accumulate_def Let_def cell_cell_update)

lemma accumulate_weights_or:
  "cell_or 0 (weights (accumulate fl m f c)) f' c' = cell_or 0 (weights m) f' c'"
  by (simp add: cell_or_def accumulate_weights)

lemma accumulate_other_or:
  "(f', c') \<noteq> (f, c) \<Longrightarrow> cell_or 0 (totals (accumulate fl m f c)) f' c' = cell_or 0 (totals m) f' c'"
  "(f', c') \<noteq> (f, c) \<Longrightarrow> cell_or 0 (tstamps (accumulate fl m f c)) f' c' = cell_or 0 (tstamps m) f' c'"
  by (auto simp: cell_or_def accumulate_totals accumulate_tstamps)

lemma accumulate_ok: "perceptron_ok m \<Longrightarrow> perceptron_ok (accumulate fl m f c)"
  by (simp add: perceptron_ok_def accumulate_def Let_def dict_ok_cell_update)

text \<open>
  The effect of the loop body for one feature, when \<open>truth \<noteq> guess\<close>: the cells of the
  feature at \<open>truth\<close> and \<open>guess\<close> change as the claim says, and no other cell changes.
\<close>

lemma update_feature_fields:
  "step (update_feature fl truth guess m f) = step m"
  "classes (update_feature fl truth guess m f) = classes m"
  by (simp_all add: update_feature_def Let_def accumulate_fields)

lemma update_feature_totals:
  assumes "truth \<noteq> guess"
  shows "cell (totals (update_feature fl truth guess m f)) f' c'
     = (if f' = f \<and> (c' = truth \<or> c' = guess)
        then Some (cell_or 0 (totals m) f c'
                   + fl (step m - cell_or 0 (tstamps m) f c') * cell_or 0 (weights m) f c')
        else cell (totals m) f' c')"
  using assms
  by (auto simp: update_feature_def Let_def accumulate_totals accumulate_fields
      accumulate_other_or accumulate_weights_or)

lemma update_feature_tstamps:
  assumes "truth \<noteq> guess"
  shows "cell (tstamps (update_feature fl truth guess m f)) f' c'
     = (if f' = f \<and> (c' = truth \<or> c' = guess) then Some (step m)
        else cell (tstamps m) f' c')"
  using assms
  by (auto simp: update_feature_def Let_def accumulate_tstamps accumulate_fields)

lemma update_feature_weights:
  assumes "truth \<noteq> guess"
  shows "cell (weights (update_feature fl truth guess m f)) f' c'
     = (if f' = f \<and> c' = truth then Some (cell_or 0 (weights m) f truth + 1)
        else if f' = f \<and> c' = guess then Some (cell_or 0 (weights m) f guess - 1)
        else cell (weights m) f' c')"
  using assms
  by (auto simp: update_feature_def Let_def cell_cell_update cell_or_cell_update
      accumulate_weights accumulate_weights_or)

lemma update_feature_ok:
  "perceptron_ok m \<Longrightarrow> perceptron_ok (update_feature fl truth guess m f)"
proof -
  assume "perceptron_ok m"
  then have "perceptron_ok (accumulate fl (accumulate fl m f truth) f guess)"
    by (intro accumulate_ok)
  then show ?thesis
    by (simp add: perceptron_ok_def update_feature_def Let_def dict_ok_cell_update)
qed

lemma update_feature_other_or:
  assumes "truth \<noteq> guess" "f' \<noteq> f"
  shows "cell_or 0 (totals (update_feature fl truth guess m f)) f' c = cell_or 0 (totals m) f' c"
    "cell_or 0 (tstamps (update_feature fl truth guess m f)) f' c = cell_or 0 (tstamps m) f' c"
    "cell_or 0 (weights (update_feature fl truth guess m f)) f' c = cell_or 0 (weights m) f' c"
  using assms
  by (simp_all add: cell_or_def update_feature_totals update_feature_tstamps update_feature_weights)

lemma update_fold:
  assumes "truth \<noteq> guess" and "distinct fs"
  shows "step (foldl (update_feature fl truth guess) m fs) = step m
    \<and> (\<forall>f c.
         cell (totals (foldl (update_feature fl truth guess) m fs)) f c
           = (if f \<in> set fs \<and> (c = truth \<or> c = guess)
              then Some (cell_or 0 (totals m) f c
                         + fl (step m - cell_or 0 (tstamps m) f c) * cell_or 0 (weights m) f c)
              else cell (totals m) f c)
       \<and> cell (tstamps (foldl (update_feature fl truth guess) m fs)) f c
           = (if f \<in> set fs \<and> (c = truth \<or> c = guess) then Some (step m)
              else cell (tstamps m) f c)
       \<and> cell (weights (foldl (update_feature fl truth guess) m fs)) f c
           = (if f \<in> set fs \<and> c = truth then Some (cell_or 0 (weights m) f truth + 1)
              else if f \<in> set fs \<and> c = guess then Some (cell_or 0 (weights m) f guess - 1)
              else cell (weights m) f c))"
  using assms(2)
proof (induction fs arbitrary: m)
  case Nil
  show ?case by simp
next
  case (Cons f0 fs)
  let ?m1 = "update_feature fl truth guess m f0"
  have d: "distinct fs" and fresh: "f0 \<notin> set fs" using Cons.prems by simp_all
  note ih0 = Cons.IH[OF d, of ?m1]
  note ih = ih0[THEN conjunct1]
  have st: "step ?m1 = step m" by (rule update_feature_fields)
  note iht = ih0[THEN conjunct2, rule_format, THEN conjunct1]
  note ihs = ih0[THEN conjunct2, rule_format, THEN conjunct2, THEN conjunct1]
  note ihw = ih0[THEN conjunct2, rule_format, THEN conjunct2, THEN conjunct2]
  show ?case
  proof (intro conjI allI)
    show "step (foldl (update_feature fl truth guess) m (f0 # fs)) = step m"
      using ih st by simp
  next
    fix f c
    show "cell (totals (foldl (update_feature fl truth guess) m (f0 # fs))) f c
           = (if f \<in> set (f0 # fs) \<and> (c = truth \<or> c = guess)
              then Some (cell_or 0 (totals m) f c
                         + fl (step m - cell_or 0 (tstamps m) f c) * cell_or 0 (weights m) f c)
              else cell (totals m) f c)"
    proof (cases "f = f0")
      case True
      then show ?thesis
        using iht[of f c] fresh by (auto simp: update_feature_totals[OF assms(1)])
    next
      case False
      then show ?thesis
        using iht[of f c] st
        by (auto simp: update_feature_other_or[OF assms(1) False]
            update_feature_totals[OF assms(1)])
    qed
  next
    fix f c
    show "cell (tstamps (foldl (update_feature fl truth guess) m (f0 # fs))) f c
           = (if f \<in> set (f0 # fs) \<and> (c = truth \<or> c = guess) then Some (step m)
              else cell (tstamps m) f c)"
    proof (cases "f = f0")
      case True
      then show ?thesis
        using ihs[of f c] fresh by (auto simp: update_feature_tstamps[OF assms(1)])
    next
      case False
      then show ?thesis
        using ihs[of f c] st by (auto simp: update_feature_tstamps[OF assms(1)])
    qed
  next
    fix f c
    show "cell (weights (foldl (update_feature fl truth guess) m (f0 # fs))) f c
           = (if f \<in> set (f0 # fs) \<and> c = truth then Some (cell_or 0 (weights m) f truth + 1)
              else if f \<in> set (f0 # fs) \<and> c = guess then Some (cell_or 0 (weights m) f guess - 1)
              else cell (weights m) f c)"
    proof (cases "f = f0")
      case True
      then show ?thesis
        using ihw[of f c] fresh by (auto simp: update_feature_weights[OF assms(1)])
    next
      case False
      then show ?thesis
        using ihw[of f c]
        by (auto simp: update_feature_other_or[OF assms(1) False]
            update_feature_weights[OF assms(1)])
    qed
  qed
qed

lemma update_fold_ok:
  "perceptron_ok m \<Longrightarrow> perceptron_ok (foldl (update_feature fl truth guess) m fs)"
  by (induction fs arbitrary: m) (simp_all add: update_feature_ok)

lemma update_ok: "perceptron_ok m \<Longrightarrow> perceptron_ok (update fl m truth guess fs)"
proof -
  assume "perceptron_ok m"
  then have "perceptron_ok (m\<lparr>step := step m + 1\<rparr>)" by (simp add: perceptron_ok_def)
  then show ?thesis by (simp add: update_def Let_def update_fold_ok)
qed

lemma new_perceptron_ok: "perceptron_ok (new_perceptron cs)"
  by (simp add: perceptron_ok_def new_perceptron_def dict_ok_def)

section \<open>The averaged perceptron: averaging\<close>

lemma map_of_averaged_row:
  assumes "distinct (map fst row)"
  shows "map_of (averaged_row fl m stp f row) c
         = (case map_of row c of None \<Rightarrow> None
            | Some w \<Rightarrow> if averaged_cell fl m stp f c w \<noteq> 0
                        then Some (averaged_cell fl m stp f c w) else None)"
  unfolding averaged_row_def
  using map_of_filter_map[OF assms, of "\<lambda>v. v \<noteq> 0" "averaged_cell fl m stp f" c]
  by simp

lemma nonempty_iff_some_key:
  "xs \<noteq> [] \<longleftrightarrow> (\<exists>k v. map_of xs k = Some v)"
proof (cases xs)
  case Nil
  then show ?thesis by simp
next
  case (Cons kv xs')
  then have "map_of xs (fst kv) = Some (snd kv)" by (cases kv) simp
  then show ?thesis using Cons by blast
qed

lemma distinct_filter_map_keys:
  "distinct (map fst xs) \<Longrightarrow> distinct (map fst (filter Q (map (\<lambda>kv. (fst kv, h kv)) xs)))"
proof (induction xs)
  case Nil
  show ?case by simp
next
  case (Cons kv xs)
  have "fst ` set (filter Q (map (\<lambda>kv. (fst kv, h kv)) xs)) \<subseteq> fst ` set xs" by force
  then show ?case using Cons by auto
qed

lemma average_weights_value:
  assumes "dict_ok (weights m)" and "step m + 1 \<noteq> 0"
  shows "\<exists>avg m'. average_weights fl m = Inr (avg, m')
      \<and> step m' = step m + 1 \<and> weights m' = weights m \<and> dict_ok avg
      \<and> (\<forall>f c. cell avg f c
             = (case cell (weights m) f c of
                  None \<Rightarrow> None
                | Some w \<Rightarrow>
                    let v = (cell_or 0 (totals m) f c
                             + fl (step m + 1 - cell_or 0 (tstamps m) f c) * w) / fl (step m + 1)
                    in if v \<noteq> 0 then Some v else None))
      \<and> (\<forall>f. f \<in> fst ` set avg \<longleftrightarrow> (\<exists>c v. cell avg f c = Some v))"
proof -
  define m1 where "m1 = m\<lparr>step := step m + 1\<rparr>"
  define stp where "stp = step m + 1"
  define avg where "avg = filter (\<lambda>frow. snd frow \<noteq> [])
                (map (\<lambda>frow. (fst frow, averaged_row fl m1 stp (fst frow) (snd frow))) (weights m))"
  define m' where "m' = m1\<lparr> totals := touch_cells 0 (weights m1) (totals m1),
                               tstamps := touch_cells 0 (weights m1) (tstamps m1) \<rparr>"
  have d: "distinct (map fst (weights m))"
    and rows: "\<And>f row. map_of (weights m) f = Some row \<Longrightarrow> distinct (map fst row)"
  proof -
    show "distinct (map fst (weights m))" using assms(1) by (simp add: dict_ok_def)
    fix f row assume "map_of (weights m) f = Some row"
    then have "(f, row) \<in> set (weights m)" by (rule map_of_SomeD)
    then have "row \<in> snd ` set (weights m)" by force
    then show "distinct (map fst row)" using assms(1) by (auto simp: dict_ok_def)
  qed
  have run: "average_weights fl m = Inr (avg, m')"
    using assms(2)
    by (simp add: average_weights_def Let_def avg_def m'_def m1_def stp_def)
  have fields: "step m' = step m + 1" "weights m' = weights m"
    by (simp_all add: m'_def m1_def)
  have mo: "map_of avg f
             = (case map_of (weights m) f of None \<Rightarrow> None
                | Some row \<Rightarrow> if averaged_row fl m1 stp f row \<noteq> []
                              then Some (averaged_row fl m1 stp f row) else None)" for f
    unfolding avg_def
    using map_of_filter_map[OF d, of "\<lambda>r. r \<noteq> []" "averaged_row fl m1 stp" f] by simp
  have ac: "averaged_cell fl m1 stp f c w
              = (cell_or 0 (totals m) f c + fl (step m + 1 - cell_or 0 (tstamps m) f c) * w)
                / fl (step m + 1)" for f c w
    by (simp add: averaged_cell_def m1_def stp_def Let_def)
  have cellv: "cell avg f c
             = (case cell (weights m) f c of
                  None \<Rightarrow> None
                | Some w \<Rightarrow>
                    let v = (cell_or 0 (totals m) f c
                             + fl (step m + 1 - cell_or 0 (tstamps m) f c) * w) / fl (step m + 1)
                    in if v \<noteq> 0 then Some v else None)" for f c
  proof (cases "map_of (weights m) f")
    case None
    then show ?thesis by (simp add: cell_def mo)
  next
    case (Some row)
    have "cell avg f c = map_of (averaged_row fl m1 stp f row) c"
      by (cases "averaged_row fl m1 stp f row = []") (simp_all add: cell_def mo Some)
    also have "\<dots> = (case map_of row c of None \<Rightarrow> None
            | Some w \<Rightarrow> if averaged_cell fl m1 stp f c w \<noteq> 0
                        then Some (averaged_cell fl m1 stp f c w) else None)"
      by (rule map_of_averaged_row[OF rows[OF Some]])
    finally show ?thesis by (simp add: cell_def Some ac Let_def split: option.splits)
  qed
  have keys: "f \<in> fst ` set avg \<longleftrightarrow> (\<exists>c v. cell avg f c = Some v)" for f
  proof -
    have "f \<in> fst ` set avg \<longleftrightarrow> map_of avg f \<noteq> None"
      by (simp add: map_of_eq_None_iff)
    also have "\<dots> \<longleftrightarrow> (\<exists>row. map_of avg f = Some row \<and> row \<noteq> [])"
      by (auto simp: mo split: option.splits if_splits)
    also have "\<dots> \<longleftrightarrow> (\<exists>c v. cell avg f c = Some v)"
    proof (cases "map_of avg f")
      case None
      then show ?thesis by (simp add: cell_def)
    next
      case (Some row)
      then show ?thesis
        using nonempty_iff_some_key[of row] by (simp add: cell_def)
    qed
    finally show ?thesis .
  qed
  have ok: "dict_ok avg"
  proof -
    have "distinct (map fst avg)"
      unfolding avg_def by (rule distinct_filter_map_keys[OF d])
    moreover have "distinct (map fst row)" if r: "row \<in> snd ` set avg" for row
    proof -
      obtain p where p: "p \<in> set avg" "row = snd p" using r by blast
      then obtain q where q: "q \<in> set (weights m)"
        "p = (fst q, averaged_row fl m1 stp (fst q) (snd q))"
        unfolding avg_def by auto
      have "distinct (map fst (snd q))"
        using assms(1) q(1) by (simp add: dict_ok_def)
      then show ?thesis
        unfolding p(2) q(2) averaged_row_def by (simp add: distinct_filter_map_keys)
    qed
    ultimately show ?thesis by (simp add: dict_ok_def)
  qed
  show ?thesis
    using run fields ok cellv keys by blast
qed

lemma update_snoc:
  "truth \<noteq> guess \<Longrightarrow>
   update fl m truth guess (features @ [f])
     = update_feature fl truth guess (update fl m truth guess features) f"
  by (simp add: update_def Let_def)

lemma update_same:
  "update fl m c c features = m\<lparr>step := step m + 1\<rparr>"
  by (simp add: update_def Let_def)

text \<open>
  Claim C3. \<open>update\<close> always adds exactly 1 to the step counter. When \<open>truth = guess\<close>
  it changes nothing else. Otherwise it runs the loop body once per feature, in order; the
  loop body, from any state \<open>s\<close>, adds \<open>(step - timestamp) * weight\<close> to the totals
  cell of the feature at \<open>truth\<close> and at \<open>guess\<close>, sets both timestamps to the step,
  adds 1 to the weight at \<open>truth\<close>, subtracts 1 from the weight at \<open>guess\<close> and leaves
  every other cell alone; for a feature list without repetition this gives the cells after
  the whole update in terms of the cells before it. \<open>average_weights\<close> adds 1 to the
  step once more and returns, for every cell \<open>(f, c)\<close> of \<open>weights\<close>,
  \<open>(totals + (step - timestamp) * weight) / step\<close>, without the cells whose value is 0
  and without the features left with no cell. Arithmetic is that of the number type, in
  the order the code applies it.
\<close>

theorem averaged_perceptron_update:
  fixes m :: "'a::{zero,one,plus,minus,times,inverse} perceptron"
  shows "step (update fl m truth guess features) = step m + 1
    \<and> (truth = guess \<longrightarrow>
          weights (update fl m truth guess features) = weights m
        \<and> totals (update fl m truth guess features) = totals m
        \<and> tstamps (update fl m truth guess features) = tstamps m)
    \<and> (truth \<noteq> guess \<longrightarrow>
          update fl m truth guess [] = m\<lparr>step := step m + 1\<rparr>
        \<and> (\<forall>f. update fl m truth guess (features @ [f])
                   = update_feature fl truth guess (update fl m truth guess features) f)
        \<and> (\<forall>(s :: 'a perceptron) f f' c.
              step (update_feature fl truth guess s f) = step s
            \<and> cell (totals (update_feature fl truth guess s f)) f' c
                 = (if f' = f \<and> (c = truth \<or> c = guess)
                    then Some (cell_or 0 (totals s) f c
                               + fl (step s - cell_or 0 (tstamps s) f c) * cell_or 0 (weights s) f c)
                    else cell (totals s) f' c)
            \<and> cell (tstamps (update_feature fl truth guess s f)) f' c
                 = (if f' = f \<and> (c = truth \<or> c = guess) then Some (step s)
                    else cell (tstamps s) f' c)
            \<and> cell (weights (update_feature fl truth guess s f)) f' c
                 = (if f' = f \<and> c = truth then Some (cell_or 0 (weights s) f truth + 1)
                    else if f' = f \<and> c = guess then Some (cell_or 0 (weights s) f guess - 1)
                    else cell (weights s) f' c)))
    \<and> (truth \<noteq> guess \<and> distinct features \<longrightarrow>
         (\<forall>f c.
            cell (totals (update fl m truth guess features)) f c
              = (if f \<in> set features \<and> (c = truth \<or> c = guess)
                 then Some (cell_or 0 (totals m) f c
                            + fl (step m + 1 - cell_or 0 (tstamps m) f c) * cell_or 0 (weights m) f c)
                 else cell (totals m) f c)
          \<and> cell (tstamps (update fl m truth guess features)) f c
              = (if f \<in> set features \<and> (c = truth \<or> c = guess) then Some (step m + 1)
                 else cell (tstamps m) f c)
          \<and> cell (weights (update fl m truth guess features)) f c
              = (if f \<in> set features \<and> c = truth then Some (cell_or 0 (weights m) f truth + 1)
                 else if f \<in> set features \<and> c = guess then Some (cell_or 0 (weights m) f guess - 1)
                 else cell (weights m) f c)))
    \<and> (dict_ok (weights m) \<and> step m + 1 \<noteq> 0 \<longrightarrow>
         (\<exists>avg m'. average_weights fl m = Inr (avg, m')
            \<and> step m' = step m + 1 \<and> weights m' = weights m
            \<and> (\<forall>f c. cell avg f c
                   = (case cell (weights m) f c of
                        None \<Rightarrow> None
                      | Some w \<Rightarrow>
                          let v = (cell_or 0 (totals m) f c
                                   + fl (step m + 1 - cell_or 0 (tstamps m) f c) * w)
                                  / fl (step m + 1)
                          in if v \<noteq> 0 then Some v else None))
            \<and> (\<forall>f. f \<in> fst ` set avg \<longleftrightarrow> (\<exists>c v. cell avg f c = Some v))))"
proof (intro conjI impI)
  show "step (update fl m truth guess features) = step m + 1"
  proof (cases "truth = guess")
    case True
    then show ?thesis by (simp add: update_same)
  next
    case False
    then show ?thesis
      using update_fold[OF False, of "[]" fl "m\<lparr>step := step m + 1\<rparr>"]
      by (induction features rule: rev_induct)
        (simp_all add: update_snoc update_feature_fields update_def Let_def)
  qed
next
  assume "truth = guess"
  then show "weights (update fl m truth guess features) = weights m"
    "totals (update fl m truth guess features) = totals m"
    "tstamps (update fl m truth guess features) = tstamps m"
    by (simp_all add: update_same)
next
  assume "truth \<noteq> guess"
  then show "update fl m truth guess [] = m\<lparr>step := step m + 1\<rparr>"
    by (simp add: update_def Let_def)
next
  assume ne: "truth \<noteq> guess"
  show "\<forall>f. update fl m truth guess (features @ [f])
                   = update_feature fl truth guess (update fl m truth guess features) f"
    using update_snoc[OF ne] by blast
  show "\<forall>(s :: 'a perceptron) f f' c.
              step (update_feature fl truth guess s f) = step s
            \<and> cell (totals (update_feature fl truth guess s f)) f' c
                 = (if f' = f \<and> (c = truth \<or> c = guess)
                    then Some (cell_or 0 (totals s) f c
                               + fl (step s - cell_or 0 (tstamps s) f c) * cell_or 0 (weights s) f c)
                    else cell (totals s) f' c)
            \<and> cell (tstamps (update_feature fl truth guess s f)) f' c
                 = (if f' = f \<and> (c = truth \<or> c = guess) then Some (step s)
                    else cell (tstamps s) f' c)
            \<and> cell (weights (update_feature fl truth guess s f)) f' c
                 = (if f' = f \<and> c = truth then Some (cell_or 0 (weights s) f truth + 1)
                    else if f' = f \<and> c = guess then Some (cell_or 0 (weights s) f guess - 1)
                    else cell (weights s) f' c)"
    by (simp add: update_feature_totals[OF ne] update_feature_tstamps[OF ne]
        update_feature_weights[OF ne] update_feature_fields)
next
  assume "truth \<noteq> guess \<and> distinct features"
  then have ne: "truth \<noteq> guess" and d: "distinct features" by simp_all
  have u: "update fl m truth guess features
             = foldl (update_feature fl truth guess) (m\<lparr>step := step m + 1\<rparr>) features"
    using ne by (simp add: update_def Let_def)
  show "\<forall>f c.
            cell (totals (update fl m truth guess features)) f c
              = (if f \<in> set features \<and> (c = truth \<or> c = guess)
                 then Some (cell_or 0 (totals m) f c
                            + fl (step m + 1 - cell_or 0 (tstamps m) f c) * cell_or 0 (weights m) f c)
                 else cell (totals m) f c)
          \<and> cell (tstamps (update fl m truth guess features)) f c
              = (if f \<in> set features \<and> (c = truth \<or> c = guess) then Some (step m + 1)
                 else cell (tstamps m) f c)
          \<and> cell (weights (update fl m truth guess features)) f c
              = (if f \<in> set features \<and> c = truth then Some (cell_or 0 (weights m) f truth + 1)
                 else if f \<in> set features \<and> c = guess then Some (cell_or 0 (weights m) f guess - 1)
                 else cell (weights m) f c)"
    unfolding u
    using update_fold[OF ne d, of fl "m\<lparr>step := step m + 1\<rparr>", THEN conjunct2]
    by simp
next
  assume "dict_ok (weights m) \<and> step m + 1 \<noteq> 0"
  then have ok: "dict_ok (weights m)" and nz: "step m + 1 \<noteq> 0" by simp_all
  show "\<exists>avg m'. average_weights fl m = Inr (avg, m')
            \<and> step m' = step m + 1 \<and> weights m' = weights m
            \<and> (\<forall>f c. cell avg f c
                   = (case cell (weights m) f c of
                        None \<Rightarrow> None
                      | Some w \<Rightarrow>
                          let v = (cell_or 0 (totals m) f c
                                   + fl (step m + 1 - cell_or 0 (tstamps m) f c) * w)
                                  / fl (step m + 1)
                          in if v \<noteq> 0 then Some v else None))
            \<and> (\<forall>f. f \<in> fst ` set avg \<longleftrightarrow> (\<exists>c v. cell avg f c = Some v))"
    using average_weights_value[OF ok nz, of fl] by blast
qed

theorem averaged_perceptron_update_witness:
  "''A'' \<noteq> ''B'' \<and> distinct [''f1''] \<and> dict_ok (weights example_model)
   \<and> step example_model + 1 \<noteq> 0
   \<and> step (update of_int example_model ''A'' ''B'' [''f1'']) = 3
   \<and> cell (totals (update of_int example_model ''A'' ''B'' [''f1''])) ''f1'' ''A'' = Some 1
   \<and> cell (tstamps (update of_int example_model ''A'' ''B'' [''f1''])) ''f1'' ''B'' = Some 3
   \<and> cell (weights (update of_int example_model ''A'' ''B'' [''f1''])) ''f1'' ''A'' = Some 1
   \<and> cell (weights (update of_int example_model ''A'' ''B'' [''f1''])) ''f2'' ''A'' = Some 1
   \<and> (\<exists>avg m'. average_weights of_int example_model = Inr (avg, m')
         \<and> step m' = 3
         \<and> cell avg ''f1'' ''A'' = Some (1 / 3)
         \<and> cell avg ''f2'' ''B'' = Some (- 2 / 3))"
proof -
  have s: "step example_model = 2" by code_simp
  have ok: "dict_ok (weights example_model)" by code_simp
  have c: "cell_or 0 (totals example_model) ''f1'' ''A'' = 1"
    "cell_or 0 (tstamps example_model) ''f1'' ''A'' = 2"
    "cell_or 0 (weights example_model) ''f1'' ''A'' = 0"
    "cell (weights example_model) ''f1'' ''A'' = Some 0"
    "cell (weights example_model) ''f2'' ''A'' = Some 1"
    "cell (weights example_model) ''f2'' ''B'' = Some (- 1)"
    "cell_or 0 (totals example_model) ''f2'' ''B'' = 0"
    "cell_or 0 (tstamps example_model) ''f2'' ''B'' = 1"
    by code_simp+
  note t = averaged_perceptron_update[of of_int example_model "''A''" "''B''" "[''f1'']"]
  have u: "step (update of_int example_model ''A'' ''B'' [''f1'']) = 3"
    using t s by simp
  have d: "cell (totals (update of_int example_model ''A'' ''B'' [''f1''])) ''f1'' ''A'' = Some 1"
    "cell (tstamps (update of_int example_model ''A'' ''B'' [''f1''])) ''f1'' ''B'' = Some 3"
    "cell (weights (update of_int example_model ''A'' ''B'' [''f1''])) ''f1'' ''A'' = Some 1"
    "cell (weights (update of_int example_model ''A'' ''B'' [''f1''])) ''f2'' ''A'' = Some 1"
    using t s c by simp_all
  obtain avg m' where a: "average_weights of_int example_model = Inr (avg, m')"
    "step m' = step example_model + 1"
    and v: "\<forall>f c. cell avg f c
                   = (case cell (weights example_model) f c of
                        None \<Rightarrow> None
                      | Some w \<Rightarrow>
                          let v = (cell_or 0 (totals example_model) f c
                                   + of_int (step example_model + 1
                                             - cell_or 0 (tstamps example_model) f c) * w)
                                  / of_int (step example_model + 1)
                          in if v \<noteq> 0 then Some v else None)"
    using t ok s by auto
  have "cell avg ''f1'' ''A'' = Some (1 / 3)" "cell avg ''f2'' ''B'' = Some (- 2 / 3)"
    using v[rule_format, of "''f1''" "''A''"] v[rule_format, of "''f2''" "''B''"] c s
    by simp_all
  then show ?thesis using a s ok u d by auto
qed

end
